theory Spec2Isabelle
  imports Complex_Main "HOL-Library.Word"
begin

unbundle bit_operations_syntax

section \<open>The sensorimotor driver of libsensorimotor\<close>

text \<open>
  A shallow embedding of \<^verbatim>\<open>src/sensorimotor.hpp\<close> (class \<^verbatim>\<open>supreme::sensorimotor\<close>).
  The C++ object is a record, every member function takes the object and returns the
  updated one. \<^verbatim>\<open>double\<close> and \<^verbatim>\<open>float\<close> are modelled by the real numbers: rounding,
  infinities and NaN are outside the model. \<^verbatim>\<open>uint8_t\<close>, \<^verbatim>\<open>uint16_t\<close>, \<^verbatim>\<open>int16_t\<close> and
  \<^verbatim>\<open>unsigned\<close> are machine words of 8, 16, 16 and 32 bits. Where a \<^verbatim>\<open>double\<close> is
  converted to an integer, in the encoder of the set-voltage command, the products
  that lead to it are rounded to the nearest \<^verbatim>\<open>double\<close> as the machine does
  (\<open>double_mul\<close>), since there the rounding decides the byte that is sent.
\<close>

type_synonym u8 = "8 word"
type_synonym u16 = "16 word"
type_synonym i16 = "16 word"
type_synonym u32 = "32 word"

subsection \<open>Free helper functions\<close>

definition pos :: "real \<Rightarrow> real" where
  "pos v = max 0 v"

definition neg :: "real \<Rightarrow> real" where
  "neg v = min 0 v"

definition posneg :: "real \<Rightarrow> real \<Rightarrow> real \<Rightarrow> real" where
  "posneg v p n = p * pos v + n * neg v"

text \<open>\<^verbatim>\<open>(word - 512) / 512.0\<close>: the 16-bit operand is promoted to \<^verbatim>\<open>int\<close> before
  the subtraction, so the difference may be negative.\<close>

definition uint_to_sc :: "u16 \<Rightarrow> real" where
  "uint_to_sc w = real_of_int (uint w - 512) / 512"

text \<open>Modelled from the spec: \<^verbatim>\<open>clip\<close> is declared in \<^verbatim>\<open>common/modules.h\<close>, which is
  not part of the sources. The specification describes it as the generic clamp
  \<^verbatim>\<open>clamp(x, bound = 1.0)\<close> that restricts \<^verbatim>\<open>x\<close> to \<^verbatim>\<open>[-bound, +bound]\<close>. A call
  with one argument is written here with the default bound \<open>1\<close>.\<close>

definition clip :: "real \<Rightarrow> real \<Rightarrow> real" where
  "clip x bound = max (- bound) (min bound x)"

text \<open>\<^verbatim>\<open>round\<close> of the C library: to the nearest integer, halfway cases away from zero.
  The result is still a \<^verbatim>\<open>double\<close>.\<close>

definition c_round :: "real \<Rightarrow> real" where
  "c_round x = (if 0 \<le> x then real_of_int \<lfloor>x + 1 / 2\<rfloor> else - real_of_int \<lfloor>- x + 1 / 2\<rfloor>)"

text \<open>\<^verbatim>\<open>static_cast<uint8_t>\<close> of a \<^verbatim>\<open>double\<close>: the value is truncated towards zero; the
  conversion is undefined when the truncated value is not representable in 8 bits,
  which is the result \<open>None\<close>.\<close>

definition static_cast_uint8 :: "real \<Rightarrow> u8 option" where
  "static_cast_uint8 x =
     (let t = (if 0 \<le> x then \<lfloor>x\<rfloor> else \<lceil>x\<rceil>)
      in if 0 \<le> t \<and> t \<le> 255 then Some (word_of_int t) else None)"

subsection \<open>The communication channel\<close>

text \<open>Modelled from the spec: \<^verbatim>\<open>communication_interface\<close> is declared in
  \<^verbatim>\<open>communication_interface.hpp\<close>, which is not part of the sources. The specification
  lists its operations: a readable inbound byte queue with \<^verbatim>\<open>read\<close>, \<^verbatim>\<open>empty\<close>,
  \<^verbatim>\<open>front\<close>, \<^verbatim>\<open>pop\<close>, \<^verbatim>\<open>get_byte\<close> (consume and return), \<^verbatim>\<open>get_word\<close> (consume and
  return 16 bits, big-endian), a running checksum with \<^verbatim>\<open>reset_checksum\<close> and
  \<^verbatim>\<open>is_checksum_ok\<close>, and an outgoing frame built by \<^verbatim>\<open>enqueue_sync_bytes\<close>,
  \<^verbatim>\<open>enqueue_byte\<close> and \<^verbatim>\<open>enqueue_checksum\<close>, whose checksum byte is computed over
  every byte after the sync pair. The checksum algorithm is left open by the
  specification: it is the three fields \<open>chk_add\<close> (fold one byte into the
  accumulator), \<open>chk_ok\<close> (the accumulator validates) and \<open>chk_byte\<close> (the byte to
  transmit for an accumulator), about which nothing is assumed.\<close>

record communication_interface =
  recvq :: "u8 list"
  checksum :: u8
  sendq :: "u8 list"
  send_checksum :: u8
  chk_add :: "u8 \<Rightarrow> u8 \<Rightarrow> u8"
  chk_ok :: "u8 \<Rightarrow> bool"
  chk_byte :: "u8 \<Rightarrow> u8"

text \<open>\<^verbatim>\<open>read_msg\<close> pulls the bytes that have arrived on the wire into the readable queue.
  The bytes that arrive are an argument of the model.\<close>

definition read_msg :: "u8 list \<Rightarrow> communication_interface \<Rightarrow> communication_interface" where
  "read_msg arrived c = c\<lparr>recvq := recvq c @ arrived\<rparr>"

definition com_empty :: "communication_interface \<Rightarrow> bool" where
  "com_empty c = (recvq c = [])"

definition com_size :: "communication_interface \<Rightarrow> nat" where
  "com_size c = length (recvq c)"

text \<open>\<^verbatim>\<open>front\<close> and \<^verbatim>\<open>get_byte\<close> on an empty queue are not described by the
  specification; the driver calls them only behind \<^verbatim>\<open>empty\<close> and \<^verbatim>\<open>size\<close> guards. The
  model returns 0 there and leaves the channel as it is.\<close>

definition front :: "communication_interface \<Rightarrow> u8" where
  "front c = (case recvq c of [] \<Rightarrow> 0 | b # _ \<Rightarrow> b)"

definition pop :: "communication_interface \<Rightarrow> communication_interface" where
  "pop c = c\<lparr>recvq := tl (recvq c)\<rparr>"

definition reset_checksum :: "communication_interface \<Rightarrow> communication_interface" where
  "reset_checksum c = c\<lparr>checksum := 0\<rparr>"

definition get_byte :: "communication_interface \<Rightarrow> u8 \<times> communication_interface" where
  "get_byte c =
     (case recvq c of
        [] \<Rightarrow> (0, c)
      | b # bs \<Rightarrow> (b, c\<lparr>recvq := bs, checksum := chk_add c (checksum c) b\<rparr>))"

text \<open>The 16-bit word with the high byte \<open>hi\<close> and the low byte \<open>lo\<close>.\<close>

definition be_word :: "u8 \<Rightarrow> u8 \<Rightarrow> u16" where
  "be_word hi lo = push_bit 8 (ucast hi) OR ucast lo"

definition get_word :: "communication_interface \<Rightarrow> u16 \<times> communication_interface" where
  "get_word c =
     (let (hi, c1) = get_byte c; (lo, c2) = get_byte c1
      in (be_word hi lo, c2))"

definition is_checksum_ok :: "communication_interface \<Rightarrow> bool" where
  "is_checksum_ok c = chk_ok c (checksum c)"

definition enqueue_sync_bytes :: "u8 \<Rightarrow> communication_interface \<Rightarrow> communication_interface" where
  "enqueue_sync_bytes b c = c\<lparr>sendq := sendq c @ [b, b], send_checksum := 0\<rparr>"

definition enqueue_byte :: "u8 \<Rightarrow> communication_interface \<Rightarrow> communication_interface" where
  "enqueue_byte b c = c\<lparr>sendq := sendq c @ [b], send_checksum := chk_add c (send_checksum c) b\<rparr>"

definition enqueue_checksum :: "communication_interface \<Rightarrow> communication_interface" where
  "enqueue_checksum c = c\<lparr>sendq := sendq c @ [chk_byte c (send_checksum c)]\<rparr>"

subsection \<open>The data of the driver\<close>

record interface_data =
  output_voltage :: real
  position :: real
  current :: real
  voltage_backemf :: real
  voltage_supply :: real
  temperature :: real

datatype command_state_t = sync0 | sync1 | processing | completed | invalid

record Statistics_t =
  errors :: u32
  timeouts :: u32
  response_time_us :: u32
  avg_resp_time_us :: real
  max_resp_time_us :: u32
  faulted :: bool

text \<open>The enumerators of \<^verbatim>\<open>Controller_t\<close> carry the name of their enumeration, since
  \<open>position\<close> is a field of \<open>interface_data\<close> as well.\<close>

datatype Controller_t = Controller_none | Controller_voltage | Controller_position | Controller_csl

record sensorimotor =
  motor_id :: u8
  com :: communication_interface
  do_request :: bool
  is_responding :: bool
  direction :: i16
  data :: interface_data
  err_int :: real
  z :: real
  target_position :: real
  target_voltage :: real
  target_csl_mode :: real
  target_csl_fb :: real
  limit_lo :: real
  limit_hi :: real
  Kp :: real
  phi_disable :: real
  syncstate :: command_state_t
  statistics :: Statistics_t
  controller :: Controller_t

definition voltage_scale :: real where
  "voltage_scale = 0.012713472"

definition current_scale :: real where
  "current_scale = 0.003225806"

definition max_response_time_us :: u32 where
  "max_response_time_us = 1000"

definition byte_delay_us :: u32 where
  "byte_delay_us = 1"

definition ping_timeout_us :: u32 where
  "ping_timeout_us = 50"

subsection \<open>Statistics\<close>

definition update :: "u32 \<Rightarrow> bool \<Rightarrow> bool \<Rightarrow> Statistics_t \<Rightarrow> Statistics_t" where
  "update time_us timeout inval st =
     (let st = (if inval then st\<lparr>errors := errors st + 1\<rparr> else st);
          st = (if timeout then st\<lparr>timeouts := timeouts st + 1\<rparr> else st);
          st = st\<lparr>faulted := (timeout \<or> inval)\<rparr>;
          st = st\<lparr>response_time_us := time_us\<rparr>;
          st = st\<lparr>avg_resp_time_us := 0.99 * avg_resp_time_us st + 0.01 * real (unat time_us)\<rparr>
      in st\<lparr>max_resp_time_us := max (max_resp_time_us st) time_us\<rparr>)"

subsection \<open>The control law\<close>

definition disable :: "sensorimotor \<Rightarrow> sensorimotor" where
  "disable s = s\<lparr>controller := Controller_none\<rparr>"

definition set_target_voltage :: "real \<Rightarrow> sensorimotor \<Rightarrow> sensorimotor" where
  "set_target_voltage v s = s\<lparr>target_voltage := v, data := (data s)\<lparr>output_voltage := v\<rparr>\<rparr>"

definition execute_controller :: "sensorimotor \<Rightarrow> sensorimotor" where
  "execute_controller s0 =
     (let phi = position (data s0);
          s1 = (if \<bar>phi\<bar> \<ge> phi_disable s0 then disable s0 else s0);
          s2 = (if controller s1 = Controller_position then
                  (let p = position (data s1);
                       err = target_position s1 - p;
                       s = s1\<lparr>err_int := err_int s1 + err\<rparr>;
                       s = s\<lparr>err_int := clip (err_int s) 1\<rparr>
                   in set_target_voltage (Kp s * err) s)
                else s1\<lparr>err_int := 0\<rparr>);
          mode = clip (target_csl_mode s2) 1;
          gi = posneg mode 2.4 16.0;
          gf = target_csl_fb s2 * pos mode
      in if controller s2 = Controller_csl then
           (let s3 = (if phi > limit_hi s2 then s2\<lparr>z := min (z s2) (gi * phi)\<rparr> else s2);
                s4 = (if phi < limit_lo s3 then s3\<lparr>z := max (z s3) (gi * phi)\<rparr> else s3);
                u = clip (- gi * phi + z s4) 1;
                s5 = s4\<lparr>z := gi * phi + gf * u\<rparr>
            in set_target_voltage (0.75 * u) s5)
         else s2\<lparr>z := gi * phi\<rparr>)"

subsection \<open>Products of doubles\<close>

text \<open>Rounding to the nearest integer, halfway cases to the even one.\<close>

definition round_even :: "real \<Rightarrow> int" where
  "round_even y =
     (let f = \<lfloor>y\<rfloor>; d = y - real_of_int f
      in if d < 1 / 2 then f else if 1 / 2 < d then f + 1 else if even f then f else f + 1)"

text \<open>The binary64 format has 53 significant bits and its smallest normal exponent is
  \<open>-1022\<close>: the doubles near \<open>x\<close> are the multiples of \<open>double_ulp x\<close>, and
  \<open>double_round x\<close> is the nearest of them, ties to the even multiple. Overflow to
  infinity (beyond about \<open>1.8e308\<close>) is outside the model.\<close>

definition double_expo :: "real \<Rightarrow> int" where
  "double_expo x = max \<lfloor>log 2 \<bar>x\<bar>\<rfloor> (- 1022)"

definition double_ulp :: "real \<Rightarrow> real" where
  "double_ulp x = 2 powi (double_expo x - 52)"

definition double_round :: "real \<Rightarrow> real" where
  "double_round x =
     (if x = 0 then 0 else real_of_int (round_even (x / double_ulp x)) * double_ulp x)"

text \<open>The product of two doubles as the machine computes it.\<close>

definition double_mul :: "real \<Rightarrow> real \<Rightarrow> real" where
  "double_mul a b = double_round (a * b)"

subsection \<open>Encoding the set-voltage command\<close>

text \<open>\<^verbatim>\<open>voltage *= direction\<close> and \<^verbatim>\<open>std::abs(voltage) * 255\<close> are products of doubles;
  \<^verbatim>\<open>clip\<close>, \<^verbatim>\<open>std::abs\<close>, the conversion of \<open>direction\<close> to \<^verbatim>\<open>double\<close> and \<^verbatim>\<open>round\<close>
  are exact.\<close>

definition enqueue_command_set_voltage :: "real \<Rightarrow> sensorimotor \<Rightarrow> sensorimotor option" where
  "enqueue_command_set_voltage voltage s =
     (let v = clip voltage 0.5;
          v = double_mul v (real_of_int (sint (direction s)));
          c = enqueue_sync_bytes 0xFF (com s);
          c = (if v \<ge> 0 then enqueue_byte 0xB0 c else enqueue_byte 0xB1 c);
          c = enqueue_byte (motor_id s) c
      in case static_cast_uint8 (c_round (double_mul \<bar>v\<bar> 255)) of
           None \<Rightarrow> None
         | Some pwm \<Rightarrow> Some (s\<lparr>com := enqueue_checksum (enqueue_byte pwm c)\<rparr>))"

subsection \<open>Construction\<close>

text \<open>The constructor \<^verbatim>\<open>sensorimotor(id, com)\<close> with the default member initialisers.\<close>

definition Statistics_t_init :: Statistics_t where
  "Statistics_t_init =
     \<lparr>errors = 0, timeouts = 0, response_time_us = 0, avg_resp_time_us = 0,
      max_resp_time_us = 0, faulted = False\<rparr>"

definition interface_data_init :: interface_data where
  "interface_data_init =
     \<lparr>output_voltage = 0, position = 0, current = 0, voltage_backemf = 0,
      voltage_supply = 0, temperature = 0\<rparr>"

definition sensorimotor_init :: "u8 \<Rightarrow> communication_interface \<Rightarrow> sensorimotor" where
  "sensorimotor_init mid c =
     \<lparr>motor_id = mid, com = c, do_request = True, is_responding = False, direction = 1,
      data = interface_data_init, err_int = 0, z = 0, target_position = 0,
      target_voltage = 0, target_csl_mode = 0, target_csl_fb = 1.03, limit_lo = - 0.8,
      limit_hi = 0.8, Kp = 0.8, phi_disable = 0.90, syncstate = sync0,
      statistics = Statistics_t_init, controller = Controller_none\<rparr>"

text \<open>An instance of the channel for evaluating the model on concrete frames: the
  accumulator is the sum of the bytes folded into it, the transmitted checksum byte is
  the two's complement of the accumulator, and the accumulator validates when it
  is 0.\<close>

definition additive_com :: communication_interface where
  "additive_com =
     \<lparr>recvq = [], checksum = 0, sendq = [], send_checksum = 0,
      chk_add = (\<lambda>acc b. acc + b), chk_ok = (\<lambda>acc. acc = 0), chk_byte = (\<lambda>acc. - acc)\<rparr>"

text \<open>Successive runs of the control law, each on a fresh position reading (the
  receive cycle between two runs stores the reading in \<open>data\<close>).\<close>

fun controller_cycles :: "real list \<Rightarrow> sensorimotor \<Rightarrow> sensorimotor" where
  "controller_cycles [] s = s"
| "controller_cycles (p # ps) s =
     controller_cycles ps (execute_controller (s\<lparr>data := (data s)\<lparr>position := p\<rparr>\<rparr>))"

subsection \<open>The frame parser\<close>

definition is_pending :: "sensorimotor \<Rightarrow> bool" where
  "is_pending s = (syncstate s \<noteq> completed \<and> syncstate s \<noteq> invalid)"

definition is_data_valid :: "sensorimotor \<Rightarrow> bool" where
  "is_data_valid s = (syncstate s \<noteq> invalid)"

text \<open>The block of \<^verbatim>\<open>case 0x80\<close> that runs once more than 12 bytes are queued: the
  command byte and the id are consumed; when the id is the driver's, the five words
  are consumed and stored in \<open>data\<close>, one after the other, and the checksum byte is
  consumed; the parser state is set last.\<close>

definition receive_state_data :: "sensorimotor \<Rightarrow> sensorimotor" where
  "receive_state_data s =
     (let (cmd, c) = get_byte (com s);
          (mid, c) = get_byte c;
          s = s\<lparr>com := c\<rparr>;
          s = (if mid = motor_id s then
                 (let (w, c) = get_word (com s);
                      d = (data s)\<lparr>position := uint_to_sc w * real_of_int (sint (direction s))\<rparr>;
                      (w, c) = get_word c;
                      d = d\<lparr>current := real (unat w) * current_scale\<rparr>;
                      (w, c) = get_word c;
                      d = d\<lparr>voltage_backemf := uint_to_sc w\<rparr>;
                      (w, c) = get_word c;
                      d = d\<lparr>voltage_supply := real (unat w) * voltage_scale\<rparr>;
                      (w, c) = get_word c;
                      d = d\<lparr>temperature := real_of_int (sint w) / 100\<rparr>;
                      (chk, c) = get_byte c
                  in s\<lparr>data := d, com := c\<rparr>)
               else s)
      in s\<lparr>syncstate :=
             (if motor_id s = mid \<and> is_checksum_ok (com s) then completed else invalid)\<rparr>)"

text \<open>The block of \<^verbatim>\<open>case 0xE1\<close> that runs once more than 2 bytes are queued.\<close>

definition receive_ping_response :: "sensorimotor \<Rightarrow> sensorimotor" where
  "receive_ping_response s =
     (let (cmd, c) = get_byte (com s);
          (mid, c) = get_byte c;
          (chk, c) = get_byte c;
          s = s\<lparr>com := c\<rparr>;
          s = s\<lparr>syncstate :=
                 (if motor_id s = mid \<and> is_checksum_ok (com s) then completed else invalid)\<rparr>
      in s\<lparr>is_responding := (syncstate s = completed)\<rparr>)"

text \<open>One call of \<^verbatim>\<open>receive_data\<close>. Its first argument is what \<^verbatim>\<open>com.read_msg()\<close> finds
  on the wire in this call. The result is the return code (true: continue processing,
  false: wait for the next byte) and the driver after the call.\<close>

definition receive_data :: "u8 list \<Rightarrow> sensorimotor \<Rightarrow> bool \<times> sensorimotor" where
  "receive_data arrived s0 =
     (let s = s0\<lparr>com := read_msg arrived (com s0)\<rparr>
      in case syncstate s of
           sync0 \<Rightarrow>
             if com_empty (com s) then (False, s)
             else if front (com s) = 0xFF then
               (True, s\<lparr>syncstate := sync1, com := snd (get_byte (reset_checksum (com s)))\<rparr>)
             else (True, s\<lparr>com := pop (com s)\<rparr>)
         | sync1 \<Rightarrow>
             if com_empty (com s) then (False, s)
             else if front (com s) = 0xFF then
               (True, s\<lparr>syncstate := processing, com := snd (get_byte (com s))\<rparr>)
             else (True, s\<lparr>com := pop (com s), syncstate := sync0\<rparr>)
         | processing \<Rightarrow>
             if com_empty (com s) then (False, s)
             else if front (com s) = 0x80 then
               (if com_size (com s) > 12 then (True, receive_state_data s) else (False, s))
             else if front (com s) = 0xE1 then
               (if com_size (com s) > 2 then (True, receive_ping_response s) else (False, s))
             else (False, s\<lparr>syncstate := invalid\<rparr>)
         | invalid \<Rightarrow> (False, s)
         | completed \<Rightarrow> (False, s))"

subsection \<open>The receive cycle\<close>

text \<open>The wire: the bytes that the successive calls of \<^verbatim>\<open>com.read_msg()\<close> will find,
  one list for each call (nothing arrives once \<open>pending\<close> is used up), and the lists
  that the calls made so far have found.\<close>

record wire =
  pending :: "u8 list list"
  delivered :: "u8 list list"

definition next_read :: "wire \<Rightarrow> u8 list" where
  "next_read w = (case pending w of [] \<Rightarrow> [] | a # _ \<Rightarrow> a)"

definition advance :: "wire \<Rightarrow> wire" where
  "advance w = \<lparr>pending = tl (pending w), delivered = delivered w @ [next_read w]\<rparr>"

text \<open>Modelled from the spec: \<^verbatim>\<open>com.wait_us\<close> of the channel always returns true.\<close>

definition wait_us :: "u32 \<Rightarrow> bool" where
  "wait_us us = True"

text \<open>A call that returns true has consumed at least one byte of the queue.\<close>

lemma get_byte_proj:
  "fst (get_byte c) = front c"
  "recvq (snd (get_byte c)) = tl (recvq c)"
  "chk_add (snd (get_byte c)) = chk_add c"
  "chk_ok (snd (get_byte c)) = chk_ok c"
  by (simp_all add: get_byte_def front_def split: list.splits)

lemma get_word_proj:
  "recvq (snd (get_word c)) = tl (tl (recvq c))"
  "chk_add (snd (get_word c)) = chk_add c"
  "chk_ok (snd (get_word c)) = chk_ok c"
  by (simp_all add: get_word_def split_def Let_def get_byte_proj)

lemma length_receive_state_data:
  "recvq (com s) \<noteq> [] \<Longrightarrow> length (recvq (com (receive_state_data s))) < length (recvq (com s))"
  by (simp add: receive_state_data_def Let_def split_def get_byte_proj get_word_proj)

lemma length_receive_ping_response:
  "recvq (com s) \<noteq> [] \<Longrightarrow> length (recvq (com (receive_ping_response s))) < length (recvq (com s))"
  by (simp add: receive_ping_response_def Let_def split_def get_byte_proj)

lemma receive_data_consumes:
  assumes "fst (receive_data a s)"
  shows "length (recvq (com (snd (receive_data a s)))) < length (recvq (com s)) + length a"
proof -
  let ?s = "s\<lparr>com := read_msg a (com s)\<rparr>"
  have q: "length (recvq (com ?s)) = length (recvq (com s)) + length a"
    by (simp add: read_msg_def)
  show ?thesis
  proof (cases "syncstate s")
    case sync0
    with assms show ?thesis
      by (auto simp add: receive_data_def Let_def com_empty_def pop_def get_byte_proj
          reset_checksum_def read_msg_def split: if_splits)
  next
    case sync1
    with assms show ?thesis
      by (auto simp add: receive_data_def Let_def com_empty_def pop_def get_byte_proj
          read_msg_def split: if_splits)
  next
    case processing
    with assms have ne: "recvq (com ?s) \<noteq> []"
      by (auto simp add: receive_data_def Let_def com_empty_def split: if_splits)
    from processing assms
    have "snd (receive_data a s) = receive_state_data ?s \<or>
          snd (receive_data a s) = receive_ping_response ?s"
      by (auto simp add: receive_data_def Let_def split: if_splits)
    with length_receive_state_data [OF ne] length_receive_ping_response [OF ne] q
    show ?thesis by auto
  next
    case completed
    with assms show ?thesis by (simp add: receive_data_def Let_def)
  next
    case invalid
    with assms show ?thesis by (simp add: receive_data_def Let_def)
  qed
qed

text \<open>The inner loop \<^verbatim>\<open>while(receive_data());\<close>. It ends because every call that
  returns true consumes a byte and the wire holds finitely many.\<close>

function receive_loop :: "wire \<Rightarrow> sensorimotor \<Rightarrow> wire \<times> sensorimotor" where
  "receive_loop w s =
     (let r = receive_data (next_read w) s
      in if fst r then receive_loop (advance w) (snd r) else (advance w, snd r))"
  by pat_completeness auto
termination
proof (relation "measure (\<lambda>(w, s). length (concat (pending w)) + length (recvq (com s)))")
  show "wf (measure (\<lambda>(w, s). length (concat (pending w)) + length (recvq (com s))))"
    by simp
next
  fix w s r
  assume "r = receive_data (next_read w) s" and "fst r"
  then have "length (recvq (com (snd r))) < length (recvq (com s)) + length (next_read w)"
    using receive_data_consumes by simp
  moreover have "length (concat (pending (advance w))) + length (next_read w) =
      length (concat (pending w))"
    by (cases "pending w") (simp_all add: advance_def next_read_def)
  ultimately show "((advance w, snd r), (w, s)) \<in>
      measure (\<lambda>(w, s). length (concat (pending w)) + length (recvq (com s)))"
    by simp
qed

declare receive_loop.simps [simp del]

lemma word_dec_less:
  fixes d :: u32
  assumes "d \<noteq> 0"
  shows "unat (d - 1) < unat d"
  using assms by (simp add: unat_minus_one unat_gt_0)

text \<open>The outer loop \<^verbatim>\<open>do { ... } while(++t_us < timeout_us and is_pending() and
  com.wait_us(byte_delay_us));\<close> entered with the counter at \<open>t_us\<close>. The counter is a
  32-bit word; the loop ends because the distance to \<open>timeout_us - 1\<close> shrinks.\<close>

function receive_wait :: "u32 \<Rightarrow> u32 \<Rightarrow> wire \<Rightarrow> sensorimotor \<Rightarrow> u32 \<times> wire \<times> sensorimotor" where
  "receive_wait timeout_us t_us w s =
     (let r = receive_loop w s;
          t = t_us + 1
      in if t < timeout_us \<and> is_pending (snd r) \<and> wait_us byte_delay_us
         then receive_wait timeout_us t (fst r) (snd r)
         else (t, fst r, snd r))"
  by pat_completeness auto
termination
proof (relation "measure (\<lambda>(timeout_us, t_us, w, s). unat (timeout_us - 1 - t_us))")
  show "wf (measure (\<lambda>(timeout_us, t_us, w, s). unat (timeout_us - 1 - t_us)))"
    by simp
next
  fix timeout_us t_us t :: u32 and w :: wire and s :: sensorimotor and r :: "wire \<times> sensorimotor"
  assume "t = t_us + 1" and "t < timeout_us \<and> is_pending (snd r) \<and> wait_us byte_delay_us"
  then have lt: "t_us + 1 < timeout_us" by simp
  then have "timeout_us - 1 - t_us \<noteq> 0" by auto
  from word_dec_less [OF this]
  have "unat (timeout_us - 1 - (t_us + 1)) < unat (timeout_us - 1 - t_us)"
    by (simp add: algebra_simps)
  with \<open>t = t_us + 1\<close>
  show "((timeout_us, t, fst r, snd r), (timeout_us, t_us, w, s)) \<in>
      measure (\<lambda>(timeout_us, t_us, w, s). unat (timeout_us - 1 - t_us))"
    by simp
qed

declare receive_wait.simps [simp del]

definition receive_response :: "u32 \<Rightarrow> wire \<Rightarrow> sensorimotor \<Rightarrow> Statistics_t \<times> wire \<times> sensorimotor" where
  "receive_response timeout_us w s0 =
     (let s = s0\<lparr>syncstate := sync0\<rparr>;
          (t_us, w, s) = receive_wait timeout_us 0 w s;
          s = s\<lparr>statistics := update t_us (t_us \<ge> timeout_us) (\<not> is_data_valid s) (statistics s)\<rparr>
      in (statistics s, w, s))"

text \<open>A sequence of calls of \<^verbatim>\<open>receive_data\<close>, the \<open>i\<close>-th finding the bytes \<open>reads ! i\<close>
  on the wire. Every receive cycle is such a sequence.\<close>

fun parser_calls :: "u8 list list \<Rightarrow> sensorimotor \<Rightarrow> sensorimotor" where
  "parser_calls [] s = s"
| "parser_calls (a # as) s = parser_calls as (snd (receive_data a s))"


subsection \<open>The control law in the words of the specification\<close>

text \<open>The quantities of the csl branch as the specification names them:
  \<open>mode = clamp(target_csl_mode)\<close>, \<open>gi = 2.4 mode\<close> for \<open>mode \<ge> 0\<close> and \<open>16 mode\<close>
  otherwise, \<open>gf = target_csl_fb max(0, mode)\<close>, the internal state \<open>z\<close> after
  the two limit clamps, and \<open>u = clamp(- gi position + z)\<close>.\<close>

definition csl_mode :: "sensorimotor \<Rightarrow> real" where
  "csl_mode s = clip (target_csl_mode s) 1"

definition csl_gi :: "sensorimotor \<Rightarrow> real" where
  "csl_gi s = (if csl_mode s \<ge> 0 then 2.4 * csl_mode s else 16.0 * csl_mode s)"

definition csl_gf :: "sensorimotor \<Rightarrow> real" where
  "csl_gf s = target_csl_fb s * max 0 (csl_mode s)"

definition csl_z_clamped :: "sensorimotor \<Rightarrow> real" where
  "csl_z_clamped s =
     (let phi = position (data s);
          z1 = (if phi > limit_hi s then min (z s) (csl_gi s * phi) else z s)
      in if phi < limit_lo s then max z1 (csl_gi s * phi) else z1)"

definition csl_u :: "sensorimotor \<Rightarrow> real" where
  "csl_u s = clip (- csl_gi s * position (data s) + csl_z_clamped s) 1"

subsection \<open>The set-voltage frame in the words of the specification\<close>

text \<open>The checksum byte the channel appends to a frame whose bytes after the sync pair
  are \<open>bs\<close>.\<close>

definition frame_checksum :: "communication_interface \<Rightarrow> u8 list \<Rightarrow> u8" where
  "frame_checksum c bs = chk_byte c (foldl (chk_add c) 0 bs)"

text \<open>The requested voltage clamped to \<open>[-0.5, 0.5]\<close> and multiplied by the direction,
  in exact arithmetic, and the payload \<open>round (|v'| 255)\<close> that the specification
  names.\<close>

definition exact_voltage :: "real \<Rightarrow> sensorimotor \<Rightarrow> real" where
  "exact_voltage v s = clip v 0.5 * real_of_int (sint (direction s))"

definition exact_pwm :: "real \<Rightarrow> sensorimotor \<Rightarrow> int" where
  "exact_pwm v s = round (\<bar>exact_voltage v s\<bar> * 255)"

text \<open>The same two quantities as the machine computes them, each product rounded to
  the nearest double, and the frame built from them.\<close>

definition corrected_voltage :: "real \<Rightarrow> sensorimotor \<Rightarrow> real" where
  "corrected_voltage v s = double_mul (clip v 0.5) (real_of_int (sint (direction s)))"

definition double_pwm :: "real \<Rightarrow> sensorimotor \<Rightarrow> int" where
  "double_pwm v s = round (double_mul \<bar>corrected_voltage v s\<bar> 255)"

definition set_voltage_frame :: "real \<Rightarrow> sensorimotor \<Rightarrow> u8 list" where
  "set_voltage_frame v s =
     (let cmd = (if 0 \<le> corrected_voltage v s then 0xB0 else 0xB1);
          pwm = word_of_int (double_pwm v s)
      in [0xFF, 0xFF, cmd, motor_id s, pwm, frame_checksum (com s) [cmd, motor_id s, pwm]])"

text \<open>The double nearest to 0.3: \<open>0x3FD3333333333333\<close>.\<close>

definition double_0_3 :: real where
  "double_0_3 = 5404319552844595 / 2 ^ 54"

subsection \<open>Concrete drivers\<close>

text \<open>Motor 5 on the additive channel, in position mode with a target of 0.9.\<close>

definition position_example :: sensorimotor where
  "position_example =
     (sensorimotor_init 5 additive_com)\<lparr>target_position := 0.9, controller := Controller_position\<rparr>"

text \<open>In csl mode beyond the safety threshold.\<close>

definition cutoff_example :: sensorimotor where
  "cutoff_example = (sensorimotor_init 5 additive_com)
     \<lparr>data := interface_data_init\<lparr>position := - 0.95\<rparr>, controller := Controller_csl\<rparr>"

text \<open>In csl mode above \<open>limit_hi\<close> and below the safety threshold.\<close>

definition csl_example :: sensorimotor where
  "csl_example = (sensorimotor_init 5 additive_com)
     \<lparr>data := interface_data_init\<lparr>position := 0.85\<rparr>, z := 3, target_csl_mode := 0.5,
      controller := Controller_csl\<rparr>"

text \<open>The same with a negative feedback gain.\<close>

definition csl_negative_fb_example :: sensorimotor where
  "csl_negative_fb_example = (sensorimotor_init 5 additive_com)
     \<lparr>data := interface_data_init\<lparr>position := 0.85\<rparr>, target_csl_mode := 1,
      target_csl_fb := - 1, controller := Controller_csl\<rparr>"

text \<open>With the direction reversed.\<close>

definition reversed_example :: sensorimotor where
  "reversed_example = (sensorimotor_init 5 additive_com)\<lparr>direction := - 1\<rparr>"

subsection \<open>Observing a receive cycle\<close>

text \<open>The call \<open>receive_data a s\<close> reaches the block that stores the five measured
  values (\<^verbatim>\<open>if (mid == motor_id) { ... }\<close>): the parser is in \<open>processing\<close>, the queue
  after the read starts with the command byte \<open>0x80\<close>, holds more than 12 bytes, and the
  second byte is the driver's id.\<close>

definition stores_state_data :: "u8 list \<Rightarrow> sensorimotor \<Rightarrow> bool" where
  "stores_state_data a s =
     (let c = read_msg a (com s)
      in syncstate s = processing \<and> \<not> com_empty c \<and> front c = 0x80 \<and> com_size c > 12 \<and>
         fst (get_byte (snd (get_byte c))) = motor_id s)"

text \<open>Some call of a sequence of parser calls consumes a state-data frame that carries
  the driver's id.\<close>

fun own_state_frame_consumed :: "u8 list list \<Rightarrow> sensorimotor \<Rightarrow> bool" where
  "own_state_frame_consumed [] s = False"
| "own_state_frame_consumed (a # as) s =
     (stores_state_data a s \<or> own_state_frame_consumed as (snd (receive_data a s)))"

text \<open>The reads that a cycle has made, taken from the wire before and after it.\<close>

definition cycle_reads :: "wire \<Rightarrow> wire \<Rightarrow> u8 list list" where
  "cycle_reads w w' = drop (length (delivered w)) (delivered w')"

definition fresh_wire :: "u8 list list \<Rightarrow> wire" where
  "fresh_wire bs = \<lparr>pending = bs, delivered = []\<rparr>"

text \<open>Motor 5 with the constructor's defaults on the additive channel, and three inbound
  frames: the state-data frame of the specification's scenario (position word
  \<open>0x0200\<close>, current \<open>0x0064\<close>, back-EMF \<open>0x0200\<close>, supply \<open>0x0032\<close>, temperature
  \<open>0x2710\<close>), the same frame with a wrong checksum byte, and the same frame addressed
  to motor 6 with its correct checksum byte.\<close>

definition motor5 :: sensorimotor where
  "motor5 = sensorimotor_init 5 additive_com"

definition state_frame_example :: "u8 list" where
  "state_frame_example =
     [0xFF, 0xFF, 0x80, 0x05, 0x02, 0x00, 0x00, 0x64, 0x02, 0x00, 0x00, 0x32, 0x27, 0x10, 0xAC]"

definition corrupt_frame_example :: "u8 list" where
  "corrupt_frame_example =
     [0xFF, 0xFF, 0x80, 0x05, 0x02, 0x00, 0x00, 0x64, 0x02, 0x00, 0x00, 0x32, 0x27, 0x10, 0xAD]"

definition foreign_frame_example :: "u8 list" where
  "foreign_frame_example =
     [0xFF, 0xFF, 0x80, 0x06, 0x02, 0x00, 0x00, 0x64, 0x02, 0x00, 0x00, 0x32, 0x27, 0x10, 0xAB]"

subsection \<open>Feeding the parser\<close>

text \<open>The bytes \<open>a\<close> reach the readable queue of the driver's channel.\<close>

definition arrive :: "u8 list \<Rightarrow> sensorimotor \<Rightarrow> sensorimotor" where
  "arrive a s = s\<lparr>com := read_msg a (com s)\<rparr>"

text \<open>The inner loop of the receive cycle when nothing more arrives: the parser runs
  on what is queued until a call returns false.\<close>

definition drain :: "sensorimotor \<Rightarrow> sensorimotor" where
  "drain s = snd (receive_loop (fresh_wire []) s)"

text \<open>A call that finds no new byte returns false and changes nothing.\<close>

definition settled :: "sensorimotor \<Rightarrow> bool" where
  "settled s = (receive_data [] s = (False, s))"

text \<open>In a sequence of parser calls, every call that finds no new byte returns false
  and leaves the driver as it is.\<close>

fun idle_calls_wait :: "u8 list list \<Rightarrow> sensorimotor \<Rightarrow> bool" where
  "idle_calls_wait [] s = True"
| "idle_calls_wait (a # as) s =
     ((a = [] \<longrightarrow> receive_data a s = (False, s)) \<and> idle_calls_wait as (snd (receive_data a s)))"

text \<open>A well-formed inbound frame: the sync pair, then a state-data command with its
  id, five words and checksum byte, or a ping response with its id and checksum
  byte.\<close>

definition inbound_frame :: "u8 list \<Rightarrow> bool" where
  "inbound_frame f =
     (length f = 15 \<and> take 3 f = [0xFF, 0xFF, 0x80] \<or>
      length f = 5 \<and> take 3 f = [0xFF, 0xFF, 0xE1])"

text \<open>Three receive cycles of motor 5: the frame with the wrong checksum byte and the
  frame addressed to motor 6, each available at the first read, and a cycle with the
  short time-out of \<^verbatim>\<open>ping\<close> in which only the first four bytes of a frame arrive.\<close>

definition corrupt_cycle :: "Statistics_t \<times> wire \<times> sensorimotor" where
  "corrupt_cycle = receive_response max_response_time_us (fresh_wire [corrupt_frame_example]) motor5"

definition foreign_cycle :: "Statistics_t \<times> wire \<times> sensorimotor" where
  "foreign_cycle = receive_response max_response_time_us (fresh_wire [foreign_frame_example]) motor5"

definition stalled_cycle :: "Statistics_t \<times> wire \<times> sensorimotor" where
  "stalled_cycle =
     receive_response ping_timeout_us (fresh_wire [[0xFF], [0xFF], [0x80], [0x05]]) motor5"

text \<open>The state-data frame of the scenario arriving one byte at a time, with calls in
  between that find nothing.\<close>

definition trickle_example :: "u8 list list" where
  "trickle_example =
     [[0xFF], [], [0xFF], [0x80], [], [], [0x05], [0x02], [0x00], [], [0x00], [0x64], [0x02],
      [0x00], [0x00], [0x32], [], [0x27], [0x10], [0xAC], []]"


section \<open>Statistics\<close>

text \<open>Claim C8. One call of \<open>update\<close> with the elapsed time \<open>t\<close> and the two flags adds
  one to the error counter exactly when \<open>inval\<close> is set and one to the timeout counter
  exactly when \<open>timed_out\<close> is set (both are 32-bit counters), sets \<open>faulted\<close> to the
  disjunction of the flags, stores \<open>t\<close> as the last response time, replaces the average
  by \<open>0.99\<close> times the old average plus \<open>0.01 t\<close>, and the maximum by the larger of the
  old maximum and \<open>t\<close>. The record has no other field.\<close>

theorem statistics_update_effect:
  "update t timed_out inval st =
     st\<lparr>errors := (if inval then errors st + 1 else errors st),
        timeouts := (if timed_out then timeouts st + 1 else timeouts st),
        faulted := (timed_out \<or> inval),
        response_time_us := t,
        avg_resp_time_us := 0.99 * avg_resp_time_us st + 0.01 * real (unat t),
        max_resp_time_us := max (max_resp_time_us st) t\<rparr>"
  by (simp add: update_def Let_def)

section \<open>The control law\<close>

subsection \<open>The four paths through \<open>execute_controller\<close>\<close>

lemma posneg_cases: "posneg m p n = (if 0 \<le> m then p * m else n * m)"
  by (simp add: posneg_def pos_def neg_def max_def min_def)

lemma posneg_gi: "posneg (clip (target_csl_mode s) 1) (12 / 5) 16 = csl_gi s"
  by (simp add: csl_gi_def csl_mode_def posneg_cases)

lemma pos_gf: "target_csl_fb s * pos (clip (target_csl_mode s) 1) = csl_gf s"
  by (simp add: csl_gf_def csl_mode_def pos_def)

lemma exec_cutoff:
  "phi_disable s \<le> \<bar>position (data s)\<bar> \<Longrightarrow>
   execute_controller s =
     s\<lparr>controller := Controller_none, err_int := 0, z := csl_gi s * position (data s)\<rparr>"
  by (simp add: execute_controller_def Let_def disable_def posneg_gi)

lemma exec_position:
  "controller s = Controller_position \<Longrightarrow> \<bar>position (data s)\<bar> < phi_disable s \<Longrightarrow>
   execute_controller s =
     s\<lparr>err_int := clip (err_int s + (target_position s - position (data s))) 1,
        target_voltage := Kp s * (target_position s - position (data s)),
        data := (data s)\<lparr>output_voltage := Kp s * (target_position s - position (data s))\<rparr>,
        z := csl_gi s * position (data s)\<rparr>"
  by (simp add: execute_controller_def Let_def set_target_voltage_def posneg_gi)

lemma exec_csl:
  assumes "controller s = Controller_csl" and "\<bar>position (data s)\<bar> < phi_disable s"
  shows "execute_controller s =
     s\<lparr>err_int := 0, z := csl_gi s * position (data s) + csl_gf s * csl_u s,
       target_voltage := 0.75 * csl_u s,
       data := (data s)\<lparr>output_voltage := 0.75 * csl_u s\<rparr>\<rparr>"
proof (cases "position (data s) > limit_hi s"; cases "position (data s) < limit_lo s")
qed (use assms in \<open>simp_all add: execute_controller_def Let_def set_target_voltage_def
      posneg_gi pos_gf csl_u_def csl_z_clamped_def split del: if_split\<close>)

lemma exec_idle:
  assumes "controller s \<noteq> Controller_position" and "controller s \<noteq> Controller_csl"
    and "\<bar>position (data s)\<bar> < phi_disable s"
  shows "execute_controller s = s\<lparr>err_int := 0, z := csl_gi s * position (data s)\<rparr>"
  using assms
  by (simp add: execute_controller_def Let_def set_target_voltage_def posneg_gi split del: if_split)

lemma exec_controller_keep:
  assumes "\<bar>position (data s)\<bar> < phi_disable s"
  shows "controller (execute_controller s) = controller s"
proof (cases "controller s")
  case Controller_position
  with assms show ?thesis by (simp add: exec_position)
next
  case Controller_csl
  with assms show ?thesis by (simp add: exec_csl)
qed (use assms in \<open>simp_all add: exec_idle\<close>)

lemma exec_controller_none:
  "controller s = Controller_none \<Longrightarrow> controller (execute_controller s) = Controller_none"
  by (simp add: execute_controller_def Let_def disable_def)

lemma exec_err_int_reset:
  assumes "controller s \<noteq> Controller_position"
  shows "err_int (execute_controller s) = 0"
proof (cases "phi_disable s \<le> \<bar>position (data s)\<bar>")
  case True
  then show ?thesis by (simp add: exec_cutoff)
next
  case False
  then show ?thesis using assms
    by (cases "controller s = Controller_csl") (simp_all add: exec_csl exec_idle)
qed

lemma exec_other_z:
  assumes "controller s \<noteq> Controller_csl \<or> phi_disable s \<le> \<bar>position (data s)\<bar>"
  shows "z (execute_controller s) = csl_gi s * position (data s)"
proof (cases "phi_disable s \<le> \<bar>position (data s)\<bar>")
  case True
  then show ?thesis by (simp add: exec_cutoff)
next
  case False
  with assms have "controller s \<noteq> Controller_csl" by simp
  with False show ?thesis
    by (cases "controller s = Controller_position") (simp_all add: exec_position exec_idle)
qed

lemma exec_frame:
  "position (data (execute_controller s)) = position (data s)"
  "phi_disable (execute_controller s) = phi_disable s"
  "limit_hi (execute_controller s) = limit_hi s"
  "limit_lo (execute_controller s) = limit_lo s"
  "target_csl_mode (execute_controller s) = target_csl_mode s"
  "target_csl_fb (execute_controller s) = target_csl_fb s"
  by (simp_all add: execute_controller_def Let_def set_target_voltage_def disable_def)

lemma exec_csl_params:
  "csl_gi (execute_controller s) = csl_gi s" "csl_gf (execute_controller s) = csl_gf s"
  by (simp_all add: csl_gi_def csl_gf_def csl_mode_def exec_frame)

lemmas example_defs =
  sensorimotor_init_def interface_data_init_def Statistics_t_init_def additive_com_def

lemma position_example_facts:
  "controller position_example = Controller_position"
  "position (data position_example) = 0"
  "phi_disable position_example = 0.9"
  "target_position position_example = 0.9"
  "Kp position_example = 0.8"
  "err_int position_example = 0"
  "limit_hi position_example = 0.8"
  by (simp_all add: position_example_def example_defs)

lemma csl_example_facts:
  "controller csl_example = Controller_csl"
  "position (data csl_example) = 0.85"
  "phi_disable csl_example = 0.9"
  "limit_hi csl_example = 0.8"
  "limit_lo csl_example = - 0.8"
  "z csl_example = 3"
  "csl_gi csl_example = 1.2"
  "csl_gf csl_example = 0.515"
  by (simp_all add: csl_example_def example_defs csl_gi_def csl_gf_def csl_mode_def clip_def)

lemma csl_example_u:
  "csl_z_clamped csl_example = 1.02" "csl_u csl_example = 0"
proof -
  show zc: "csl_z_clamped csl_example = 1.02"
    by (simp add: csl_z_clamped_def csl_example_facts Let_def)
  show "csl_u csl_example = 0"
    by (simp add: csl_u_def csl_example_facts zc clip_def)
qed

subsection \<open>Position mode\<close>

text \<open>Claim C2 as it is stated fails: the accumulator is clamped by \<^verbatim>\<open>clip(err_int)\<close>,
  whose bound is the default 1, not by the limits. With the default limits
  \<open>\<plusminus>0.8\<close>, a target of 0.9 at position 0 leaves the accumulator at 0.9, above
  \<open>limit_hi\<close>.\<close>

theorem position_integral_not_clamped_to_limits:
  "controller position_example = Controller_position \<and>
   \<bar>position (data position_example)\<bar> < phi_disable position_example \<and>
   limit_hi position_example < err_int (execute_controller position_example)"
  by (simp add: exec_position position_example_facts clip_def)

text \<open>Claim C2, amended. In position mode below the safety threshold the commanded
  \<open>output_voltage\<close> is \<open>Kp (target_position - position)\<close>; the accumulator is
  incremented by the error and then clamped to \<open>[-1, 1]\<close>, and it does not enter the
  output. In every invocation whose mode is not position the accumulator is reset
  to 0.\<close>

theorem position_mode_control_law:
  "(controller s = Controller_position \<and> \<bar>position (data s)\<bar> < phi_disable s \<longrightarrow>
      output_voltage (data (execute_controller s)) =
        Kp s * (target_position s - position (data s)) \<and>
      err_int (execute_controller s) =
        clip (err_int s + (target_position s - position (data s))) 1) \<and>
   (controller s \<noteq> Controller_position \<longrightarrow> err_int (execute_controller s) = 0)"
  by (simp add: exec_position exec_err_int_reset)

theorem position_mode_control_law_witness:
  "controller position_example = Controller_position \<and>
   \<bar>position (data position_example)\<bar> < phi_disable position_example \<and>
   output_voltage (data (execute_controller position_example)) = 0.72 \<and>
   err_int (execute_controller position_example) = 0.9 \<and>
   controller csl_example \<noteq> Controller_position \<and>
   err_int (execute_controller csl_example) = 0"
  using position_mode_control_law [of position_example] position_mode_control_law [of csl_example]
  by (simp add: position_example_facts csl_example_facts clip_def)

subsection \<open>The safety cutoff\<close>

lemma cycles_none:
  "controller s = Controller_none \<Longrightarrow> controller (controller_cycles ps s) = Controller_none"
  by (induction ps arbitrary: s) (simp_all add: exec_controller_none)

text \<open>Claim C4. When \<open>|position| \<ge> phi_disable\<close>, an invocation of
  \<open>execute_controller\<close> sets the mode to none whatever it was before, and no mode
  branch runs: the target and output voltage keep their values, the accumulator is
  reset and \<open>z\<close> is re-initialised, which is what the mode none does. After that the
  mode is none after every later invocation, whatever the later position readings
  \<open>ps\<close> are (in particular while the condition holds): the control law never sets a
  mode other than none.\<close>

theorem safety_cutoff_latches:
  assumes "phi_disable s \<le> \<bar>position (data s)\<bar>"
  shows "execute_controller s =
           s\<lparr>controller := Controller_none, err_int := 0, z := csl_gi s * position (data s)\<rparr> \<and>
         controller (controller_cycles ps (execute_controller s)) = Controller_none"
  using assms by (simp add: exec_cutoff cycles_none)

theorem safety_cutoff_latches_witness:
  "phi_disable cutoff_example \<le> \<bar>position (data cutoff_example)\<bar> \<and>
   controller cutoff_example = Controller_csl \<and>
   controller (execute_controller cutoff_example) = Controller_none \<and>
   controller (controller_cycles [0.95, - 0.99, 0.2] (execute_controller cutoff_example)) =
     Controller_none"
proof -
  have h: "phi_disable cutoff_example \<le> \<bar>position (data cutoff_example)\<bar>"
    and c: "controller cutoff_example = Controller_csl"
    by (simp_all add: cutoff_example_def example_defs)
  from safety_cutoff_latches [OF h, of "[0.95, - 0.99, 0.2]"]
  have a: "execute_controller cutoff_example =
      cutoff_example\<lparr>controller := Controller_none, err_int := 0,
        z := csl_gi cutoff_example * position (data cutoff_example)\<rparr>"
    and b: "controller (controller_cycles [0.95, - 0.99, 0.2] (execute_controller cutoff_example)) =
      Controller_none"
    by blast+
  have "controller (execute_controller cutoff_example) = Controller_none"
    by (simp add: a)
  with h c b show ?thesis by blast
qed

subsection \<open>The csl mode\<close>

text \<open>Claim C5. In csl mode below the safety threshold, with \<open>mode\<close>, \<open>gi\<close> and \<open>gf\<close> as
  the specification defines them (\<open>csl_mode\<close>, \<open>csl_gi\<close>, \<open>csl_gf\<close>), \<open>z\<close> is first
  clamped from above by \<open>gi position\<close> when the position exceeds \<open>limit_hi\<close> and then
  from below by \<open>gi position\<close> when it is below \<open>limit_lo\<close> (\<open>csl_z_clamped\<close>); then
  \<open>u = clip (- gi position + z) 1\<close> (\<open>csl_u\<close>), \<open>z\<close> becomes \<open>gi position + gf u\<close> and
  the commanded voltage is \<open>0.75 u\<close>; the accumulator of the position mode is reset.
  In every invocation that does not run the csl branch, \<open>z\<close> becomes \<open>gi position\<close>.\<close>

theorem csl_mode_control_law:
  "(controller s = Controller_csl \<and> \<bar>position (data s)\<bar> < phi_disable s \<longrightarrow>
      execute_controller s =
        s\<lparr>err_int := 0, z := csl_gi s * position (data s) + csl_gf s * csl_u s,
          target_voltage := 0.75 * csl_u s,
          data := (data s)\<lparr>output_voltage := 0.75 * csl_u s\<rparr>\<rparr>) \<and>
   (controller s \<noteq> Controller_csl \<or> phi_disable s \<le> \<bar>position (data s)\<bar> \<longrightarrow>
      z (execute_controller s) = csl_gi s * position (data s))"
  using exec_csl [of s] exec_other_z [of s] by blast

theorem csl_mode_control_law_witness:
  "controller csl_example = Controller_csl \<and>
   \<bar>position (data csl_example)\<bar> < phi_disable csl_example \<and>
   csl_gi csl_example = 1.2 \<and> csl_gf csl_example = 0.515 \<and>
   csl_z_clamped csl_example = 1.02 \<and> csl_u csl_example = 0 \<and>
   z csl_example = 3 \<and> z (execute_controller csl_example) = 1.02 \<and>
   output_voltage (data (execute_controller csl_example)) = 0 \<and>
   controller position_example \<noteq> Controller_csl \<and>
   z (execute_controller position_example) = 0"
proof -
  have h: "controller csl_example = Controller_csl \<and>
      \<bar>position (data csl_example)\<bar> < phi_disable csl_example"
    by (simp add: csl_example_facts)
  with csl_mode_control_law [of csl_example]
  have "execute_controller csl_example =
        csl_example\<lparr>err_int := 0,
          z := csl_gi csl_example * position (data csl_example) + csl_gf csl_example * csl_u csl_example,
          target_voltage := 0.75 * csl_u csl_example,
          data := (data csl_example)\<lparr>output_voltage := 0.75 * csl_u csl_example\<rparr>\<rparr>"
    by blast
  then have "z (execute_controller csl_example) = 1.02"
    and "output_voltage (data (execute_controller csl_example)) = 0"
    by (simp_all add: csl_example_facts csl_example_u)
  moreover from csl_mode_control_law [of position_example]
  have "z (execute_controller position_example) = 0"
    by (simp add: position_example_facts)
  ultimately show ?thesis
    by (simp add: csl_example_facts csl_example_u position_example_facts)
qed

subsection \<open>The clamp of \<open>z\<close> above \<open>limit_hi\<close>\<close>

lemma clip_nonpos: "x \<le> 0 \<Longrightarrow> clip x 1 \<le> 0"
  by (simp add: clip_def)

lemma csl_z_clamped_above:
  "limit_hi s < position (data s) \<Longrightarrow> csl_z_clamped s \<le> csl_gi s * position (data s)"
  by (simp add: csl_z_clamped_def Let_def)

lemma csl_step_bound:
  assumes c: "controller s = Controller_csl" and p: "\<bar>position (data s)\<bar> < phi_disable s"
    and hi: "limit_hi s < position (data s)" and gf: "0 \<le> csl_gf s"
  shows "z (execute_controller s) \<le> csl_gi s * position (data s)"
proof -
  have "csl_u s \<le> 0"
    unfolding csl_u_def using csl_z_clamped_above [OF hi] by (intro clip_nonpos) simp
  with gf have "csl_gf s * csl_u s \<le> 0" by (simp add: mult_nonneg_nonpos)
  then show ?thesis by (simp add: exec_csl [OF c p])
qed

lemma funpow_exec_frame:
  assumes "\<bar>position (data s)\<bar> < phi_disable s"
  shows "controller ((execute_controller ^^ n) s) = controller s \<and>
         position (data ((execute_controller ^^ n) s)) = position (data s) \<and>
         phi_disable ((execute_controller ^^ n) s) = phi_disable s \<and>
         limit_hi ((execute_controller ^^ n) s) = limit_hi s \<and>
         csl_gi ((execute_controller ^^ n) s) = csl_gi s \<and>
         csl_gf ((execute_controller ^^ n) s) = csl_gf s"
proof (induction n)
  case 0
  show ?case by simp
next
  case (Suc n)
  with assms show ?case
    by (simp add: exec_frame exec_csl_params exec_controller_keep)
qed

lemma csl_negative_fb_example_facts:
  "controller csl_negative_fb_example = Controller_csl"
  "position (data csl_negative_fb_example) = 0.85"
  "phi_disable csl_negative_fb_example = 0.9"
  "limit_hi csl_negative_fb_example = 0.8"
  "limit_lo csl_negative_fb_example = - 0.8"
  "z csl_negative_fb_example = 0"
  "csl_gi csl_negative_fb_example = 2.4"
  "csl_gf csl_negative_fb_example = - 1"
  by (simp_all add: csl_negative_fb_example_def example_defs csl_gi_def csl_gf_def csl_mode_def
      clip_def)

text \<open>Claim C6 as it is stated fails when the feedback gain is negative: with
  \<open>target_csl_fb = -1\<close>, \<open>target_csl_mode = 1\<close>, \<open>z = 0\<close> and the position fixed at
  0.85, above \<open>limit_hi = 0.8\<close> and below the safety threshold, one invocation of the
  csl branch gives \<open>u = -1\<close> and \<open>z = 2.04 + 1\<close>, above \<open>gi position = 2.04\<close>.\<close>

theorem csl_clamp_fails_for_negative_feedback:
  "controller csl_negative_fb_example = Controller_csl \<and>
   limit_hi csl_negative_fb_example < position (data csl_negative_fb_example) \<and>
   controller (execute_controller csl_negative_fb_example) = Controller_csl \<and>
   position (data (execute_controller csl_negative_fb_example)) =
     position (data csl_negative_fb_example) \<and>
   csl_gi csl_negative_fb_example * position (data csl_negative_fb_example) <
     z (execute_controller csl_negative_fb_example)"
proof -
  have zc: "csl_z_clamped csl_negative_fb_example = 0"
    by (simp add: csl_z_clamped_def csl_negative_fb_example_facts Let_def)
  have "csl_u csl_negative_fb_example = - 1"
    by (simp add: csl_u_def zc csl_negative_fb_example_facts clip_def)
  then show ?thesis
    by (simp add: exec_csl csl_negative_fb_example_facts)
qed

text \<open>Claim C6, amended. With the position fixed strictly above \<open>limit_hi\<close>, the
  controller in csl mode (so the position is below the safety threshold) and a
  feedback gain \<open>gf = target_csl_fb max(0, mode)\<close> that is not negative, \<open>z\<close> is at
  most \<open>gi position\<close> after every one of any number of successive invocations, and
  the controller stays in csl mode.\<close>

theorem csl_clamp_boundary:
  assumes "controller s = Controller_csl" and "\<bar>position (data s)\<bar> < phi_disable s"
    and "limit_hi s < position (data s)" and "0 \<le> csl_gf s"
  shows "z ((execute_controller ^^ Suc n) s) \<le> csl_gi s * position (data s) \<and>
         controller ((execute_controller ^^ Suc n) s) = Controller_csl"
proof -
  let ?t = "(execute_controller ^^ n) s"
  note fr = funpow_exec_frame [OF assms(2), of n]
  have "z (execute_controller ?t) \<le> csl_gi ?t * position (data ?t)"
    by (rule csl_step_bound) (use fr assms in simp_all)
  moreover have "controller (execute_controller ?t) = Controller_csl"
    using fr assms by (simp add: exec_controller_keep)
  ultimately show ?thesis using fr by simp
qed

theorem csl_clamp_boundary_witness:
  "controller csl_example = Controller_csl \<and>
   \<bar>position (data csl_example)\<bar> < phi_disable csl_example \<and>
   limit_hi csl_example < position (data csl_example) \<and>
   0 \<le> csl_gf csl_example \<and>
   z ((execute_controller ^^ Suc 2) csl_example) \<le> 1.02"
  using csl_clamp_boundary [of csl_example 2]
  by (simp add: csl_example_facts del: funpow.simps)

subsection \<open>The controller writes the target voltage\<close>

lemma set_target_voltage_csl_u: "csl_u (set_target_voltage v s) = csl_u s"
proof -
  let ?t = "set_target_voltage v s"
  have gi: "csl_gi ?t = csl_gi s"
    by (simp add: csl_gi_def csl_mode_def set_target_voltage_def)
  have "csl_z_clamped ?t = csl_z_clamped s"
    unfolding csl_z_clamped_def gi by (simp add: set_target_voltage_def Let_def)
  then show ?thesis
    unfolding csl_u_def gi by (simp add: set_target_voltage_def)
qed

text \<open>Claim C9. When \<open>execute_controller\<close> runs the position or the csl branch, it
  writes the computed command, \<open>Kp\<close> times the error or \<open>0.75 u\<close>, through
  \<open>set_target_voltage\<close>: whatever value \<open>v\<close> a caller had stored with
  \<open>set_target_voltage\<close> before is replaced in \<open>target_voltage\<close>, and after the call
  \<open>output_voltage\<close> equals \<open>target_voltage\<close>.\<close>

theorem controller_overwrites_target_voltage:
  assumes "\<bar>position (data s)\<bar> < phi_disable s"
    and "controller s = Controller_position \<or> controller s = Controller_csl"
  shows "target_voltage (execute_controller (set_target_voltage v s)) =
           (if controller s = Controller_position
            then Kp s * (target_position s - position (data s)) else 0.75 * csl_u s) \<and>
         output_voltage (data (execute_controller (set_target_voltage v s))) =
           target_voltage (execute_controller (set_target_voltage v s))"
proof -
  let ?t = "set_target_voltage v s"
  have t: "\<bar>position (data ?t)\<bar> < phi_disable ?t" "controller ?t = controller s"
    using assms(1) by (simp_all add: set_target_voltage_def)
  from assms(2) show ?thesis
  proof
    assume c: "controller s = Controller_position"
    with t have "controller ?t = Controller_position" by simp
    from exec_position [OF this t(1)] c show ?thesis
      by (simp add: set_target_voltage_def)
  next
    assume c: "controller s = Controller_csl"
    with t have "controller ?t = Controller_csl" by simp
    from exec_csl [OF this t(1)] c show ?thesis
      by (simp add: set_target_voltage_csl_u)
  qed
qed

theorem controller_overwrites_target_voltage_witness:
  "\<bar>position (data position_example)\<bar> < phi_disable position_example \<and>
   controller position_example = Controller_position \<and>
   target_voltage (set_target_voltage 0.3 position_example) = 0.3 \<and>
   target_voltage (execute_controller (set_target_voltage 0.3 position_example)) = 0.72 \<and>
   output_voltage (data (execute_controller (set_target_voltage 0.3 position_example))) = 0.72"
  using controller_overwrites_target_voltage [of position_example "0.3"]
  by (simp add: position_example_facts) (simp add: set_target_voltage_def)


section \<open>The set-voltage frame\<close>

subsection \<open>Rounding to the nearest double\<close>

lemma round_even_of_int: "round_even (real_of_int n) = n"
  by (simp add: round_even_def)

lemma round_even_le: 
  assumes "y \<le> real_of_int N" shows "round_even y \<le> N"
proof -
  have f: "\<lfloor>y\<rfloor> \<le> N" using assms by (simp add: floor_le_iff)
  show ?thesis
  proof (cases "y - real_of_int \<lfloor>y\<rfloor> < 1 / 2")
    case True
    with f show ?thesis by (simp add: round_even_def Let_def)
  next
    case False
    then have "real_of_int \<lfloor>y\<rfloor> < y" by linarith
    with assms have "real_of_int \<lfloor>y\<rfloor> < real_of_int N" by linarith
    then have "\<lfloor>y\<rfloor> + 1 \<le> N" by linarith
    with f show ?thesis by (simp add: round_even_def Let_def)
  qed
qed

lemma round_even_ge:
  assumes "real_of_int N \<le> y" shows "N \<le> round_even y"
proof -
  have "N \<le> \<lfloor>y\<rfloor>" using assms by (simp add: le_floor_iff)
  then show ?thesis by (simp add: round_even_def Let_def)
qed

lemma double_ulp_pos: "0 < double_ulp x"
  by (simp add: double_ulp_def)

lemma floor_log2:
  assumes "2 powi k \<le> x" and "x < 2 powi (k + 1)"
  shows "\<lfloor>log 2 x\<rfloor> = k"
proof -
  have "0 < (2::real) powi k" by simp
  with assms(1) have x: "0 < x" by linarith
  have "(2::real) powr real_of_int k = 2 powi k" "(2::real) powr (real_of_int k + 1) = 2 powi (k + 1)"
    using powr_real_of_int' [of 2 k] powr_real_of_int' [of 2 "k + 1"] by simp_all
  with assms show ?thesis
    by (simp add: floor_log_eq_powr_iff [OF x])
qed

lemma double_expo_le:
  assumes "x \<noteq> 0" and "\<bar>x\<bar> < 2 powi (n + 1)" and "- 1022 \<le> n"
  shows "double_expo x \<le> n"
proof -
  have x: "0 < \<bar>x\<bar>" using assms(1) by simp
  have "(2::real) powr (real_of_int (n + 1)) = 2 powi (n + 1)"
    using powr_real_of_int' [of 2 "n + 1"] by simp
  with assms(2) have "log 2 \<bar>x\<bar> < real_of_int (n + 1)"
    using x by (simp add: log_less_iff)
  then have "\<lfloor>log 2 \<bar>x\<bar>\<rfloor> < n + 1" unfolding floor_less_iff .
  with assms(3) show ?thesis by (simp add: double_expo_def)
qed

lemma power_int_split:
  assumes "k \<le> j"
  shows "(2::real) powi j = real_of_int (2 ^ nat (j - k)) * 2 powi k"
proof -
  have "(2::real) powi j = 2 powi ((j - k) + k)" by simp
  also have "\<dots> = 2 powi (j - k) * 2 powi k" by (rule power_int_add) simp
  also have "(2::real) powi (j - k) = 2 ^ nat (j - k)"
    using assms by (simp add: power_int_def)
  finally show ?thesis by simp
qed

lemma double_expo_eq:
  assumes "2 powi e \<le> \<bar>x\<bar>" and "\<bar>x\<bar> < 2 powi (e + 1)" and "- 1022 \<le> e"
  shows "double_expo x = e"
  using floor_log2 [OF assms(1,2)] assms(3) by (simp add: double_expo_def)

lemma double_round_exact:
  assumes "x = real_of_int n * 2 powi j" and "x \<noteq> 0" and "double_expo x - 52 \<le> j"
  shows "double_round x = x"
proof -
  let ?k = "double_expo x - 52"
  have "x / double_ulp x = real_of_int n * (real_of_int (2 ^ nat (j - ?k)) * 2 powi ?k) / 2 powi ?k"
    unfolding double_ulp_def using assms(1) power_int_split [OF assms(3)] by simp
  also have "\<dots> = real_of_int (n * 2 ^ nat (j - ?k))" by simp
  finally have "round_even (x / double_ulp x) = n * 2 ^ nat (j - ?k)"
    by (simp only: round_even_of_int)
  then have "double_round x = real_of_int (n * 2 ^ nat (j - ?k)) * 2 powi ?k"
    using assms(2) by (simp add: double_round_def double_ulp_def)
  also have "\<dots> = real_of_int n * (real_of_int (2 ^ nat (j - ?k)) * 2 powi ?k)" by simp
  also have "\<dots> = x" using assms(1) power_int_split [OF assms(3)] by simp
  finally show ?thesis .
qed

lemma double_round_bound:
  assumes "\<bar>x\<bar> \<le> real_of_int m * 2 powi j" and "0 < m" and "m < 2 ^ 53" and "- 1074 \<le> j"
  shows "\<bar>double_round x\<bar> \<le> real_of_int m * 2 powi j"
proof (cases "x = 0")
  case True
  with assms(2) show ?thesis by (simp add: double_round_def)
next
  case False
  let ?B = "real_of_int m * 2 powi j"
  let ?k = "double_expo x - 52"
  let ?u = "double_ulp x"
  have "real_of_int m < 2 ^ 53" using assms(3) by (metis of_int_less_numeral_power_cancel_iff)
  then have "?B < 2 ^ 53 * 2 powi j" by simp
  also have "\<dots> = 2 powi (j + 52 + 1)"
    using power_int_add [of "2::real" 53 j] by (simp add: add.commute)
  finally have "\<bar>x\<bar> < 2 powi (j + 52 + 1)" using assms(1) by linarith
  from double_expo_le [OF False this] assms(4) have k: "?k \<le> j" by simp
  let ?N = "m * 2 ^ nat (j - ?k)"
  have u: "?u = 2 powi ?k" by (simp add: double_ulp_def)
  have B: "?B = real_of_int ?N * ?u"
    using power_int_split [OF k] by (simp add: u)
  have up: "0 < ?u" by (rule double_ulp_pos)
  have "\<bar>x\<bar> / ?u \<le> real_of_int ?N"
    using assms(1) up unfolding B by (simp add: pos_divide_le_eq)
  then have "x / ?u \<le> real_of_int ?N" "real_of_int (- ?N) \<le> x / ?u"
    using up by (simp_all add: abs_le_iff field_simps)
  from round_even_le [OF this(1)] round_even_ge [OF this(2)]
  have "\<bar>round_even (x / ?u)\<bar> \<le> ?N" by simp
  then have "\<bar>real_of_int (round_even (x / ?u))\<bar> \<le> real_of_int ?N"
    by (metis of_int_abs of_int_le_iff)
  then have "\<bar>real_of_int (round_even (x / ?u))\<bar> * ?u \<le> real_of_int ?N * ?u"
    using up by (simp add: mult_right_mono)
  moreover have "\<bar>double_round x\<bar> = \<bar>real_of_int (round_even (x / ?u))\<bar> * ?u"
    using False up by (simp add: double_round_def abs_mult)
  ultimately show ?thesis unfolding B by simp
qed

lemma double_round_nonneg:
  assumes "0 \<le> x"
  shows "0 \<le> double_round x"
proof (cases "x = 0")
  case True
  then show ?thesis by (simp add: double_round_def)
next
  case False
  have "0 \<le> x / double_ulp x" using assms double_ulp_pos [of x] by simp
  then have "real_of_int 0 \<le> x / double_ulp x" by simp
  from round_even_ge [OF this] double_ulp_pos [of x] False show ?thesis
    by (simp add: double_round_def)
qed

lemma double_round_minus:
  assumes "double_round c = c" shows "double_round (- c) = - c"
proof (cases "c = 0")
  case True
  then show ?thesis by (simp add: double_round_def)
next
  case False
  let ?n = "round_even (c / double_ulp c)"
  from assms False have c: "c = real_of_int ?n * 2 powi (double_expo c - 52)"
    by (simp add: double_round_def double_ulp_def)
  have e: "double_expo (- c) = double_expo c" by (simp add: double_expo_def)
  have "- c = real_of_int (- ?n) * 2 powi (double_expo c - 52)"
    using c by simp
  from double_round_exact [OF this] False e show ?thesis by simp
qed

lemma double_expo_twice: "c \<noteq> 0 \<Longrightarrow> double_expo (2 * c) \<le> double_expo c + 1"
proof -
  assume "c \<noteq> 0"
  then have "log 2 \<bar>2 * c\<bar> = 1 + log 2 \<bar>c\<bar>"
    by (simp add: abs_mult log_mult)
  then have "\<lfloor>log 2 \<bar>2 * c\<bar>\<rfloor> = \<lfloor>log 2 \<bar>c\<bar>\<rfloor> + 1"
    by simp
  then show ?thesis by (simp add: double_expo_def)
qed

lemma double_round_twice:
  assumes "double_round c = c" shows "double_round (2 * c) = 2 * c"
proof (cases "c = 0")
  case True
  then show ?thesis by (simp add: double_round_def)
next
  case False
  let ?n = "round_even (c / double_ulp c)"
  let ?k = "double_expo c - 52"
  from assms False have c: "c = real_of_int ?n * 2 powi ?k"
    by (simp add: double_round_def double_ulp_def)
  have "(2::real) powi (?k + 1) = 2 powi ?k * 2"
    by (rule power_int_add_1) simp
  with c have "2 * c = real_of_int ?n * 2 powi (?k + 1)" by simp
  moreover have "2 * c \<noteq> 0" using False by simp
  moreover have "double_expo (2 * c) - 52 \<le> ?k + 1"
    using double_expo_twice [OF False] by simp
  ultimately show ?thesis by (rule double_round_exact)
qed

lemma double_round_half: "double_round (1 / 2) = 1 / 2"
proof -
  have e: "double_expo (1 / 2) = - 1"
    by (rule double_expo_eq) (simp_all add: power_int_minus)
  have h: "(1 / 2 :: real) = real_of_int 1 * 2 powi (- 1)"
    by (simp add: power_int_minus)
  show ?thesis
    by (rule double_round_exact [OF h]) (simp_all add: e)
qed

lemma double_round_clip:
  assumes "double_round v = v" shows "double_round (clip v (1 / 2)) = clip v (1 / 2)"
proof -
  have "clip v (1 / 2) = v \<or> clip v (1 / 2) = 1 / 2 \<or> clip v (1 / 2) = - (1 / 2)"
    by (auto simp add: clip_def max_def min_def)
  then show ?thesis
  proof (elim disjE)
    assume "clip v (1 / 2) = v"
    with assms show ?thesis by (simp only:)
  next
    assume "clip v (1 / 2) = 1 / 2"
    with double_round_half show ?thesis by (simp only:)
  next
    assume "clip v (1 / 2) = - (1 / 2)"
    with double_round_minus [OF double_round_half] show ?thesis by (simp only:)
  qed
qed

lemma corrected_voltage_exact:
  assumes "double_round v = v" and "\<bar>sint (direction s)\<bar> \<le> 2"
  shows "corrected_voltage v s = exact_voltage v s"
proof -
  let ?c = "clip v (1 / 2)"
  have c: "double_round ?c = ?c" using assms(1) by (rule double_round_clip)
  from assms(2) consider "sint (direction s) = 0" | "sint (direction s) = 1"
    | "sint (direction s) = - 1" | "sint (direction s) = 2" | "sint (direction s) = - 2"
    by linarith
  then have "double_round (?c * real_of_int (sint (direction s))) = ?c * real_of_int (sint (direction s))"
  proof cases
    case 1
    then show ?thesis by (simp add: double_round_def)
  next
    case 2
    with c show ?thesis by simp
  next
    case 3
    with double_round_minus [OF c] show ?thesis by simp
  next
    case 4
    with double_round_twice [OF c] show ?thesis by (simp add: mult.commute)
  next
    case 5
    with double_round_minus [OF double_round_twice [OF c]] show ?thesis by (simp add: mult.commute)
  qed
  then show ?thesis by (simp add: corrected_voltage_def exact_voltage_def double_mul_def)
qed

subsection \<open>The frame the encoder appends\<close>

lemma clip_abs_le: "0 \<le> b \<Longrightarrow> \<bar>clip x b\<bar> \<le> b"
  by (simp add: clip_def abs_le_iff)

lemma c_round_nonneg: "0 \<le> x \<Longrightarrow> c_round x = real_of_int (round x)"
  by (simp add: c_round_def round_def)

lemma static_cast_uint8_int:
  "0 \<le> k \<Longrightarrow> k \<le> 255 \<Longrightarrow> static_cast_uint8 (real_of_int k) = Some (word_of_int k)"
  by (simp add: static_cast_uint8_def)

lemma double_mul_nonneg: "0 \<le> a \<Longrightarrow> 0 \<le> b \<Longrightarrow> 0 \<le> double_mul a b"
  by (simp add: double_mul_def double_round_nonneg)

lemma double_pwm_nonneg: "0 \<le> double_pwm v s"
proof -
  have "0 \<le> double_mul \<bar>corrected_voltage v s\<bar> 255" by (rule double_mul_nonneg) simp_all
  from round_mono [OF this] show ?thesis by (simp add: double_pwm_def)
qed

lemma enqueue_set_voltage_frame:
  assumes "double_pwm v s \<le> 255"
  shows "map_option (\<lambda>t. sendq (com t)) (enqueue_command_set_voltage v s) =
           Some (sendq (com s) @ set_voltage_frame v s)"
proof -
  let ?x = "double_mul \<bar>corrected_voltage v s\<bar> 255"
  have nn: "0 \<le> ?x" by (rule double_mul_nonneg) simp_all
  have "static_cast_uint8 (c_round ?x) = Some (word_of_int (double_pwm v s))"
    unfolding c_round_nonneg [OF nn] double_pwm_def [symmetric]
    using assms double_pwm_nonneg [of v s] by (rule_tac static_cast_uint8_int)
  then have sc: "static_cast_uint8 (c_round ?x) = Some (word_of_int (double_pwm v s))" .
  have e: "enqueue_command_set_voltage v s =
      (case static_cast_uint8 (c_round ?x) of
         None \<Rightarrow> None
       | Some pwm \<Rightarrow>
           Some (s\<lparr>com := enqueue_checksum (enqueue_byte pwm (enqueue_byte (motor_id s)
             (if 0 \<le> corrected_voltage v s then enqueue_byte 0xB0 (enqueue_sync_bytes 0xFF (com s))
              else enqueue_byte 0xB1 (enqueue_sync_bytes 0xFF (com s)))))\<rparr>))"
    by (simp only: enqueue_command_set_voltage_def corrected_voltage_def Let_def)
  show ?thesis
    unfolding e sc
    by (simp add: set_voltage_frame_def Let_def frame_checksum_def
        enqueue_sync_bytes_def enqueue_byte_def enqueue_checksum_def)
qed

lemma exact_voltage_bound:
  "\<bar>exact_voltage v s\<bar> \<le> 1 / 2 * \<bar>real_of_int (sint (direction s))\<bar>"
proof -
  define d where "d = \<bar>real_of_int (sint (direction s))\<bar>"
  define c where "c = \<bar>clip v 0.5\<bar>"
  have "c \<le> 0.5" unfolding c_def by (rule clip_abs_le) simp
  moreover have "0 \<le> d" by (simp add: d_def)
  ultimately have "c * d \<le> 0.5 * d" by (rule mult_right_mono)
  moreover have "\<bar>exact_voltage v s\<bar> = c * d"
    unfolding exact_voltage_def abs_mult c_def d_def ..
  ultimately show ?thesis unfolding d_def by simp
qed

lemma corrected_voltage_round: "corrected_voltage v s = double_round (exact_voltage v s)"
  by (simp add: corrected_voltage_def exact_voltage_def double_mul_def)

lemma corrected_voltage_le_1:
  assumes "\<bar>sint (direction s)\<bar> \<le> 2"
  shows "\<bar>corrected_voltage v s\<bar> \<le> 1"
proof -
  have "\<bar>real_of_int (sint (direction s))\<bar> \<le> 2" using assms by linarith
  with exact_voltage_bound [of v s] have "\<bar>exact_voltage v s\<bar> \<le> real_of_int 1 * 2 powi 0" by simp
  from double_round_bound [OF this] show ?thesis by (simp add: corrected_voltage_round)
qed

lemma corrected_voltage_le_half:
  assumes "direction s = 1 \<or> direction s = - 1"
  shows "\<bar>corrected_voltage v s\<bar> \<le> 1 / 2"
proof -
  have "\<bar>real_of_int (sint (direction s))\<bar> = 1" using assms by auto
  with exact_voltage_bound [of v s] have "\<bar>exact_voltage v s\<bar> \<le> real_of_int 1 * 2 powi (- 1)"
    by (simp add: power_int_minus)
  from double_round_bound [OF this] show ?thesis
    by (simp add: corrected_voltage_round power_int_minus)
qed

lemma double_pwm_le_255:
  assumes "\<bar>sint (direction s)\<bar> \<le> 2"
  shows "double_pwm v s \<le> 255"
proof -
  let ?x = "\<bar>corrected_voltage v s\<bar> * 255"
  from corrected_voltage_le_1 [OF assms, of v] have "\<bar>?x\<bar> \<le> real_of_int 255 * 2 powi 0" by simp
  from double_round_bound [OF this] have "double_mul \<bar>corrected_voltage v s\<bar> 255 \<le> 255"
    by (simp add: double_mul_def)
  from round_mono [OF this] show ?thesis by (simp add: double_pwm_def)
qed

lemma double_pwm_le_128:
  assumes "direction s = 1 \<or> direction s = - 1"
  shows "double_pwm v s \<le> 128"
proof -
  let ?x = "\<bar>corrected_voltage v s\<bar> * 255"
  from corrected_voltage_le_half [OF assms, of v]
  have "\<bar>?x\<bar> \<le> real_of_int 255 * 2 powi (- 1)" by (simp add: power_int_minus)
  from double_round_bound [OF this] have "double_mul \<bar>corrected_voltage v s\<bar> 255 \<le> 255 / 2"
    by (simp add: double_mul_def power_int_minus)
  from round_mono [OF this] show ?thesis by (simp add: double_pwm_def round_def)
qed

lemma double_0_3_exact: "double_round double_0_3 = double_0_3"
proof -
  have e: "double_expo double_0_3 = - 2"
    by (rule double_expo_eq) (simp_all add: double_0_3_def power_int_minus)
  have h: "double_0_3 = real_of_int 5404319552844595 * 2 powi (- 54)"
    by (simp add: double_0_3_def power_int_minus)
  have n: "double_0_3 \<noteq> 0" by (simp add: double_0_3_def)
  show ?thesis
    by (rule double_round_exact [OF h n]) (simp add: e)
qed

lemma double_0_3_pwm: "double_mul double_0_3 255 = 153 / 2"
proof -
  let ?x = "double_0_3 * 255"
  have e: "double_expo ?x = 6"
    by (rule double_expo_eq) (simp_all add: double_0_3_def)
  then have u: "double_ulp ?x = 1 / 2 ^ 46"
    by (simp add: double_ulp_def power_int_minus)
  have "round_even (?x / double_ulp ?x) = 5383208929591296"
    unfolding u by (simp add: double_0_3_def round_even_def Let_def)
  moreover have "?x \<noteq> 0" by (simp add: double_0_3_def)
  ultimately show ?thesis
    by (simp add: double_mul_def double_round_def u)
qed

lemma double_0_3_exact_pwm: "round (double_0_3 * 255) = 76"
  by (simp add: double_0_3_def round_def)

lemma double_round_127_5: "double_round (255 / 2) = 255 / 2"
proof -
  have e: "double_expo (255 / 2) = 6"
    by (rule double_expo_eq) simp_all
  have h: "(255 / 2 :: real) = real_of_int 255 * 2 powi (- 1)"
    by (simp add: power_int_minus)
  show ?thesis
    by (rule double_round_exact [OF h]) (simp_all add: e)
qed

lemma clip_double_0_3: "clip double_0_3 (1 / 2) = double_0_3"
  by (simp add: clip_def double_0_3_def)

lemma motor5_frame:
  "sendq (com motor5) = []"
  "corrected_voltage double_0_3 motor5 = double_0_3"
  "exact_pwm double_0_3 motor5 = 76"
  "set_voltage_frame double_0_3 motor5 = [0xFF, 0xFF, 0xB0, 5, 77, 0xFE]"
proof -
  have d: "sint (direction motor5) = 1" and m: "motor_id motor5 = 5"
    by (simp_all add: motor5_def example_defs)
  show "sendq (com motor5) = []" by (simp add: motor5_def example_defs)
  have x: "exact_voltage double_0_3 motor5 = double_0_3"
    by (simp add: exact_voltage_def d clip_double_0_3)
  with corrected_voltage_exact [OF double_0_3_exact, of motor5] d
  show c: "corrected_voltage double_0_3 motor5 = double_0_3" by simp
  show "exact_pwm double_0_3 motor5 = 76"
    using double_0_3_exact_pwm by (simp add: exact_pwm_def x) (simp add: double_0_3_def)
  have n: "0 \<le> double_0_3" by (simp add: double_0_3_def)
  then have p: "double_pwm double_0_3 motor5 = 77"
    by (simp add: double_pwm_def c double_0_3_pwm round_def)
  show "set_voltage_frame double_0_3 motor5 = [0xFF, 0xFF, 0xB0, 5, 77, 0xFE]"
    using n by (simp add: set_voltage_frame_def Let_def c p m frame_checksum_def)
       (simp add: motor5_def example_defs)
qed

lemma reversed_example_frame:
  "sint (direction reversed_example) = - 1"
  "sendq (com reversed_example) = []"
  "corrected_voltage double_0_3 reversed_example = - double_0_3"
  "set_voltage_frame double_0_3 reversed_example = [0xFF, 0xFF, 0xB1, 5, 77, 0xFD]"
proof -
  show d: "sint (direction reversed_example) = - 1"
    by (simp add: reversed_example_def example_defs)
  have m: "motor_id reversed_example = 5"
    by (simp add: reversed_example_def example_defs)
  show "sendq (com reversed_example) = []" by (simp add: reversed_example_def example_defs)
  have x: "exact_voltage double_0_3 reversed_example = - double_0_3"
    by (simp add: exact_voltage_def d clip_double_0_3)
  with corrected_voltage_exact [OF double_0_3_exact, of reversed_example] d
  show c: "corrected_voltage double_0_3 reversed_example = - double_0_3" by simp
  have n: "0 < double_0_3" by (simp add: double_0_3_def)
  then have p: "double_pwm double_0_3 reversed_example = 77"
    by (simp add: double_pwm_def c double_0_3_pwm round_def)
  show "set_voltage_frame double_0_3 reversed_example = [0xFF, 0xFF, 0xB1, 5, 77, 0xFD]"
    using n by (simp add: set_voltage_frame_def Let_def c p m frame_checksum_def)
       (simp add: reversed_example_def example_defs)
qed

lemma position_example_frame:
  "direction position_example = 1"
  "sendq (com position_example) = []"
  "set_voltage_frame 0.9 position_example = [0xFF, 0xFF, 0xB0, 5, 128, 0xCB]"
proof -
  show d: "direction position_example = 1"
    by (simp add: position_example_def example_defs)
  have m: "motor_id position_example = 5"
    by (simp add: position_example_def example_defs)
  show "sendq (com position_example) = []" by (simp add: position_example_def example_defs)
  have c: "corrected_voltage (9 / 10) position_example = 1 / 2"
    by (simp add: corrected_voltage_def double_mul_def d clip_def double_round_half)
  have p: "double_pwm (9 / 10) position_example = 128"
    by (simp add: double_pwm_def c double_mul_def double_round_127_5 round_def)
  show "set_voltage_frame 0.9 position_example = [0xFF, 0xFF, 0xB0, 5, 128, 0xCB]"
    by (simp add: set_voltage_frame_def Let_def c p m frame_checksum_def)
       (simp add: position_example_def example_defs)
qed


text \<open>Claim C3 as it is stated fails in the payload byte: the code rounds the product
  \<open>|v'| 255\<close> to a double before \<^verbatim>\<open>round\<close> is applied. For the double nearest to 0.3 and
  direction \<open>+1\<close> the exact product is just below 76.5, so \<open>round (|v'| 255)\<close> is 76,
  but the double product is 76.5 and the byte sent is 77.\<close>

theorem set_voltage_payload_rounds_the_double_product:
  "double_round double_0_3 = double_0_3 \<and>
   map_option (\<lambda>t. sendq (com t)) (enqueue_command_set_voltage double_0_3 motor5) =
     Some [0xFF, 0xFF, 0xB0, 5, 77, 0xFE] \<and>
   exact_pwm double_0_3 motor5 = 76"
proof -
  have "double_pwm double_0_3 motor5 \<le> 255"
    by (rule double_pwm_le_255) (simp add: motor5_def example_defs)
  from enqueue_set_voltage_frame [OF this] double_0_3_exact show ?thesis
    by (simp add: motor5_frame)
qed


text \<open>Claim C3, amended. For every requested voltage \<open>v\<close> and every direction of
  magnitude at most 2 (the specification configures \<open>+1\<close> or \<open>-1\<close>), the encoder
  appends to the outgoing queue the frame \<open>set_voltage_frame v s\<close>: the two sync bytes
  \<open>0xFF 0xFF\<close>, the command byte \<open>0xB0\<close> when the clamped and direction-corrected
  voltage \<open>v'\<close> is not negative and \<open>0xB1\<close> otherwise, the motor id, one payload byte
  and the checksum byte of the channel over command, id and payload; the payload
  byte, read as an unsigned number, is \<open>round\<close> of the double product of \<open>|v'|\<close> and
  255, that is, of \<open>|v'| 255\<close> rounded to the nearest double. For a double \<open>v\<close> the
  voltage \<open>v'\<close> is exactly \<open>v\<close> clamped to \<open>[-0.5, 0.5]\<close> and multiplied by the
  direction. For a direction of larger magnitude the rounded product can exceed 255,
  where the conversion to one byte is undefined.\<close>

theorem set_voltage_frame_encoding:
  assumes "\<bar>sint (direction s)\<bar> \<le> 2"
  shows "map_option (\<lambda>t. sendq (com t)) (enqueue_command_set_voltage v s) =
           Some (sendq (com s) @ set_voltage_frame v s) \<and>
         uint (set_voltage_frame v s ! 4) = round (double_mul \<bar>corrected_voltage v s\<bar> 255) \<and>
         (double_round v = v \<longrightarrow> corrected_voltage v s = exact_voltage v s)"
proof -
  from double_pwm_le_255 [OF assms, of v] double_pwm_nonneg [of v s]
  have "uint (word_of_int (double_pwm v s) :: u8) = double_pwm v s"
    by (simp add: uint_word_of_int)
  then have "uint (set_voltage_frame v s ! 4) = round (double_mul \<bar>corrected_voltage v s\<bar> 255)"
    by (simp add: set_voltage_frame_def Let_def double_pwm_def)
  with enqueue_set_voltage_frame [OF double_pwm_le_255 [OF assms]] corrected_voltage_exact [OF _ assms]
  show ?thesis by (simp add: clip_def)
qed


theorem set_voltage_frame_encoding_witness:
  "\<bar>sint (direction reversed_example)\<bar> \<le> 2 \<and>
   double_round double_0_3 = double_0_3 \<and>
   map_option (\<lambda>t. sendq (com t)) (enqueue_command_set_voltage double_0_3 reversed_example) =
     Some [0xFF, 0xFF, 0xB1, 5, 77, 0xFD] \<and>
   corrected_voltage double_0_3 reversed_example = exact_voltage double_0_3 reversed_example"
  using set_voltage_frame_encoding [of reversed_example double_0_3] double_0_3_exact
  by (simp add: reversed_example_frame)


text \<open>Claim C10. For every requested voltage and a direction of \<open>+1\<close> or \<open>-1\<close> the
  encoder succeeds and the payload byte of the frame it appends is at most 128: the
  voltage is clamped to magnitude 0.5 before the direction correction, and
  \<open>round (0.5 * 255) = 128\<close>; rounding the products to doubles cannot exceed the
  doubles 0.5 and 127.5.\<close>

theorem set_voltage_pwm_at_most_128:
  assumes "direction s = 1 \<or> direction s = - 1"
  shows "map_option (\<lambda>t. sendq (com t)) (enqueue_command_set_voltage v s) =
           Some (sendq (com s) @ set_voltage_frame v s) \<and>
         set_voltage_frame v s ! 4 \<le> 128"
proof -
  from double_pwm_le_128 [OF assms, of v] have le: "double_pwm v s \<le> 128" .
  with double_pwm_nonneg [of v s] have "(word_of_int (double_pwm v s) :: u8) \<le> 128"
    by (simp add: word_le_def uint_word_of_int)
  moreover from le have "double_pwm v s \<le> 255" by simp
  ultimately show ?thesis
    using enqueue_set_voltage_frame [of v s] by (simp add: set_voltage_frame_def Let_def)
qed


theorem set_voltage_pwm_at_most_128_witness:
  "(direction position_example = 1 \<or> direction position_example = - 1) \<and>
   map_option (\<lambda>t. sendq (com t)) (enqueue_command_set_voltage 0.9 position_example) =
     Some [0xFF, 0xFF, 0xB0, 5, 128, 0xCB] \<and>
   set_voltage_frame 0.9 position_example ! 4 = 128"
  using set_voltage_pwm_at_most_128 [of position_example "0.9"]
  by (simp add: position_example_frame)

section \<open>The receive cycle\<close>

subsection \<open>What a parser call changes\<close>

lemma receive_data_terminal:
  "\<not> is_pending s \<Longrightarrow> receive_data a s = (False, s\<lparr>com := read_msg a (com s)\<rparr>)"
  by (cases "syncstate s") (simp_all add: is_pending_def receive_data_def Let_def)

lemma data_receive_ping_response: "data (receive_ping_response s) = data s"
  by (simp add: receive_ping_response_def Let_def split_def)

lemma data_receive_state_data:
  "fst (get_byte (snd (get_byte (com s)))) \<noteq> motor_id s \<Longrightarrow> data (receive_state_data s) = data s"
  by (simp add: receive_state_data_def Let_def split_def)

lemma syncstate_receive_state_data:
  "syncstate (receive_state_data s) = completed \<or> syncstate (receive_state_data s) = invalid"
  by (simp add: receive_state_data_def Let_def split_def)

lemma receive_data_keeps_data:
  assumes "\<not> stores_state_data a s"
  shows "data (snd (receive_data a s)) = data s"
proof (cases "syncstate s")
  case processing
  let ?s = "s\<lparr>com := read_msg a (com s)\<rparr>"
  show ?thesis
  proof (cases "\<not> com_empty (com ?s) \<and> front (com ?s) = 0x80 \<and> com_size (com ?s) > 12")
    case True
    with assms processing have "fst (get_byte (snd (get_byte (com ?s)))) \<noteq> motor_id ?s"
      by (simp add: stores_state_data_def Let_def)
    from data_receive_state_data [OF this] True processing show ?thesis
      by (simp add: receive_data_def Let_def)
  next
    case False
    with processing show ?thesis
      by (auto simp add: receive_data_def Let_def data_receive_ping_response)
  qed
qed (simp_all add: receive_data_def Let_def)

lemma receive_data_stores_terminal:
  assumes "stores_state_data a s"
  shows "\<not> is_pending (snd (receive_data a s))"
proof -
  let ?s = "s\<lparr>com := read_msg a (com s)\<rparr>"
  from assms have "receive_data a s = (True, receive_state_data ?s)"
    by (simp add: stores_state_data_def receive_data_def Let_def)
  with syncstate_receive_state_data [of ?s] show ?thesis
    by (auto simp add: is_pending_def)
qed

lemma parser_calls_append:
  "parser_calls (r1 @ r2) s = parser_calls r2 (parser_calls r1 s)"
  by (induction r1 arbitrary: s) simp_all

lemma parser_calls_terminal:
  "\<not> is_pending s \<Longrightarrow> \<not> is_pending (parser_calls r s)"
  by (induction r arbitrary: s) (simp_all add: receive_data_terminal is_pending_def)

lemma parser_calls_keep_data:
  "\<not> own_state_frame_consumed r s \<Longrightarrow> data (parser_calls r s) = data s"
  by (induction r arbitrary: s) (simp_all add: receive_data_keeps_data)

lemma pending_no_own_frame:
  "is_pending (parser_calls r s) \<Longrightarrow> \<not> own_state_frame_consumed r s"
proof (induction r arbitrary: s)
  case Nil
  show ?case by simp
next
  case (Cons a r)
  have "\<not> stores_state_data a s"
  proof
    assume "stores_state_data a s"
    from parser_calls_terminal [OF receive_data_stores_terminal [OF this], of r] Cons.prems
    show False by simp
  qed
  with Cons show ?case by simp
qed

lemma receive_loop_calls:
  "\<exists>r. delivered (fst (receive_loop w s)) = delivered w @ r \<and>
       snd (receive_loop w s) = parser_calls r s"
proof (induction w s rule: receive_loop.induct)
  case (1 w s)
  let ?r = "receive_data (next_read w) s"
  show ?case
  proof (cases "fst ?r")
    case True
    from "1.IH" [OF refl True] obtain r where
      r: "delivered (fst (receive_loop (advance w) (snd ?r))) = delivered (advance w) @ r"
        "snd (receive_loop (advance w) (snd ?r)) = parser_calls r (snd ?r)"
      by blast
    have "receive_loop w s = receive_loop (advance w) (snd ?r)"
      using True by (subst receive_loop.simps) (simp add: Let_def)
    with r have "delivered (fst (receive_loop w s)) = delivered w @ (next_read w # r) \<and>
        snd (receive_loop w s) = parser_calls (next_read w # r) s"
      by (simp add: advance_def)
    then show ?thesis by blast
  next
    case False
    have "receive_loop w s = (advance w, snd ?r)"
      using False by (subst receive_loop.simps) (simp add: Let_def)
    then have "delivered (fst (receive_loop w s)) = delivered w @ [next_read w] \<and>
        snd (receive_loop w s) = parser_calls [next_read w] s"
      by (simp add: advance_def)
    then show ?thesis by blast
  qed
qed

lemma receive_wait_calls:
  "\<exists>r. delivered (fst (snd (receive_wait timeout_us t_us w s))) = delivered w @ r \<and>
       snd (snd (receive_wait timeout_us t_us w s)) = parser_calls r s"
proof (induction timeout_us t_us w s rule: receive_wait.induct)
  case (1 timeout_us t_us w s)
  let ?r = "receive_loop w s"
  let ?c = "t_us + 1 < timeout_us \<and> is_pending (snd ?r) \<and> wait_us byte_delay_us"
  from receive_loop_calls [of w s] obtain r1 where
    r1: "delivered (fst ?r) = delivered w @ r1" "snd ?r = parser_calls r1 s"
    by blast
  show ?case
  proof (cases ?c)
    case True
    from "1.IH" [OF refl refl True] obtain r2 where
      r2: "delivered (fst (snd (receive_wait timeout_us (t_us + 1) (fst ?r) (snd ?r)))) =
            delivered (fst ?r) @ r2"
        "snd (snd (receive_wait timeout_us (t_us + 1) (fst ?r) (snd ?r))) =
            parser_calls r2 (snd ?r)"
      by blast
    have "receive_wait timeout_us t_us w s = receive_wait timeout_us (t_us + 1) (fst ?r) (snd ?r)"
      using True by (subst receive_wait.simps) (simp add: Let_def)
    with r1 r2 have "delivered (fst (snd (receive_wait timeout_us t_us w s))) = delivered w @ (r1 @ r2) \<and>
        snd (snd (receive_wait timeout_us t_us w s)) = parser_calls (r1 @ r2) s"
      by (simp add: parser_calls_append)
    then show ?thesis by blast
  next
    case False
    have "receive_wait timeout_us t_us w s = (t_us + 1, fst ?r, snd ?r)"
      using False by (subst receive_wait.simps) (auto simp add: Let_def)
    with r1 show ?thesis by simp
  qed
qed


subsection \<open>Device State after a cycle that does not complete\<close>

text \<open>Claim C1 as it is stated fails for a checksum failure: the five words of a
  state-data frame that carries the driver's id are stored in \<open>data\<close> before the
  checksum is checked. Motor 5 receives the frame of the scenario with a wrong
  checksum byte: the cycle ends in \<open>invalid\<close>, and \<open>current\<close>, which was 0, is
  \<open>100 current_scale\<close>.\<close>

theorem checksum_failure_overwrites_device_state:
  "syncstate (snd (snd corrupt_cycle)) = invalid \<and>
   current (data motor5) = 0 \<and>
   current (data (snd (snd corrupt_cycle))) = 100 * current_scale"
  by code_simp


text \<open>Claim C1, amended. A receive cycle \<open>receive_response\<close> that ends without the
  parser reaching \<open>completed\<close> leaves \<open>data\<close>, and so position, current,
  voltage_backemf, voltage_supply and temperature, exactly as they were before the
  cycle, when it ends with the parser still pending (it timed out) or, more
  generally, when no parser call of the cycle consumed a state-data frame carrying
  the driver's id: this covers a mismatched motor id, an unknown command byte and a
  rejected ping response. The reads of the cycle are \<open>cycle_reads w w'\<close>.\<close>

theorem receive_cycle_keeps_device_state:
  assumes "receive_response timeout_us w s = (st, w', s')"
    and "syncstate s' \<noteq> completed"
    and "is_pending s' \<or> \<not> own_state_frame_consumed (cycle_reads w w') (s\<lparr>syncstate := sync0\<rparr>)"
  shows "data s' = data s"
proof -
  let ?s0 = "s\<lparr>syncstate := sync0\<rparr>"
  let ?x = "receive_wait timeout_us 0 w ?s0"
  from receive_wait_calls [of timeout_us 0 w ?s0] obtain r where
    r: "delivered (fst (snd ?x)) = delivered w @ r" "snd (snd ?x) = parser_calls r ?s0"
    by blast
  from assms(1) have w': "w' = fst (snd ?x)"
    and s': "s' = (snd (snd ?x))\<lparr>statistics := st\<rparr>"
    by (auto simp add: receive_response_def Let_def split_def)
  from w' r have cr: "cycle_reads w w' = r" by (simp add: cycle_reads_def)
  from s' r have p: "is_pending s' = is_pending (parser_calls r ?s0)"
    and d: "data s' = data (parser_calls r ?s0)"
    by (simp_all add: is_pending_def)
  from assms(3) cr p pending_no_own_frame have "\<not> own_state_frame_consumed r ?s0"
    by auto
  from parser_calls_keep_data [OF this] d show ?thesis by simp
qed

theorem receive_cycle_keeps_device_state_witness:
  "syncstate (snd (snd foreign_cycle)) = invalid \<and>
   \<not> own_state_frame_consumed
       (cycle_reads (fresh_wire [foreign_frame_example]) (fst (snd foreign_cycle)))
       (motor5\<lparr>syncstate := sync0\<rparr>) \<and>
   data (snd (snd foreign_cycle)) = data motor5 \<and>
   is_pending (snd (snd stalled_cycle)) \<and>
   timeouts (fst stalled_cycle) = 1 \<and>
   data (snd (snd stalled_cycle)) = data motor5"
proof -
  have f1: "receive_response max_response_time_us (fresh_wire [foreign_frame_example]) motor5 =
      (fst foreign_cycle, fst (snd foreign_cycle), snd (snd foreign_cycle))"
    by (simp add: foreign_cycle_def)
  have f2: "syncstate (snd (snd foreign_cycle)) = invalid"
    by code_simp
  have f3: "\<not> own_state_frame_consumed
       (cycle_reads (fresh_wire [foreign_frame_example]) (fst (snd foreign_cycle)))
       (motor5\<lparr>syncstate := sync0\<rparr>)"
    by code_simp
  have s1: "receive_response ping_timeout_us (fresh_wire [[0xFF], [0xFF], [0x80], [0x05]]) motor5 =
      (fst stalled_cycle, fst (snd stalled_cycle), snd (snd stalled_cycle))"
    by (simp add: stalled_cycle_def)
  have s2: "is_pending (snd (snd stalled_cycle))" "timeouts (fst stalled_cycle) = 1"
    by code_simp+
  from s2(1) have s3: "syncstate (snd (snd stalled_cycle)) \<noteq> completed"
    by (simp add: is_pending_def)
  from receive_cycle_keeps_device_state [OF f1] f2 f3 have "data (snd (snd foreign_cycle)) = data motor5"
    by simp
  moreover from receive_cycle_keeps_device_state [OF s1 s3] s2(1) have "data (snd (snd stalled_cycle)) = data motor5"
    by simp
  ultimately show ?thesis using f2 f3 s2 by simp
qed


section \<open>Partial arrival of a frame\<close>

subsection \<open>More bytes in the queue do not change a parser call\<close>

lemma length_gt_Suc: "Suc n < length q \<Longrightarrow> \<exists>x ys. q = x # ys \<and> n < length ys"
  by (cases q) auto

lemma length_gt_2_obtain:
  assumes "2 < length q"
  obtains b0 b1 b2 r where "q = b0 # b1 # b2 # r"
proof -
  from assms have "Suc (Suc 0) < length q" by simp
  then obtain b0 q0 where q0: "q = b0 # q0" "Suc 0 < length q0" by (blast dest: length_gt_Suc)
  then obtain b1 q1 where q1: "q0 = b1 # q1" "0 < length q1" by (blast dest: length_gt_Suc)
  then obtain b2 q2 where q2: "q1 = b2 # q2" by (cases q1) auto
  from q0 q1 q2 that show ?thesis by blast
qed

lemma length_gt_12_obtain:
  assumes "12 < length q"
  obtains b0 b1 b2 b3 b4 b5 b6 b7 b8 b9 b10 b11 b12 r where
    "q = b0 # b1 # b2 # b3 # b4 # b5 # b6 # b7 # b8 # b9 # b10 # b11 # b12 # r"
proof -
  from assms have "2 < length q" by simp
  then obtain b0 b1 b2 q2 where a: "q = b0 # b1 # b2 # q2" by (rule length_gt_2_obtain)
  with assms have "2 < length q2" by simp
  then obtain b3 b4 b5 q5 where b: "q2 = b3 # b4 # b5 # q5" by (rule length_gt_2_obtain)
  with a assms have "2 < length q5" by simp
  then obtain b6 b7 b8 q8 where c: "q5 = b6 # b7 # b8 # q8" by (rule length_gt_2_obtain)
  with a b assms have "2 < length q8" by simp
  then obtain b9 b10 b11 q11 where d: "q8 = b9 # b10 # b11 # q11" by (rule length_gt_2_obtain)
  with a b c assms have "0 < length q11" by simp
  then obtain b12 r where e: "q11 = b12 # r" by (cases q11) auto
  from a b c d e that show ?thesis by blast
qed

lemmas chan_defs = read_msg_def com_empty_def com_size_def front_def pop_def reset_checksum_def
  get_byte_def get_word_def is_checksum_ok_def

lemma receive_state_data_arrive:
  assumes "12 < length (recvq (com s))"
  shows "receive_state_data (arrive b s) = arrive b (receive_state_data s)"
proof -
  from assms obtain b0 b1 b2 b3 b4 b5 b6 b7 b8 b9 b10 b11 b12 r where
    q: "recvq (com s) = b0 # b1 # b2 # b3 # b4 # b5 # b6 # b7 # b8 # b9 # b10 # b11 # b12 # r"
    by (rule length_gt_12_obtain)
  show ?thesis
  proof (cases "b1 = motor_id s")
    case True
    then show ?thesis
      by (simp add: receive_state_data_def arrive_def Let_def chan_defs q
          cong: prod.case_cong_weak split del: if_split)
  next
    case False
    then show ?thesis
      by (simp add: receive_state_data_def arrive_def Let_def chan_defs q
          cong: prod.case_cong_weak split del: if_split)
  qed
qed

lemma receive_ping_response_arrive:
  assumes "2 < length (recvq (com s))"
  shows "receive_ping_response (arrive b s) = arrive b (receive_ping_response s)"
proof -
  from assms obtain b0 b1 b2 r where q: "recvq (com s) = b0 # b1 # b2 # r"
    by (rule length_gt_2_obtain)
  show ?thesis
    by (simp add: receive_ping_response_def arrive_def Let_def chan_defs q
        cong: prod.case_cong_weak split del: if_split)
qed

lemma arrive_Nil: "arrive [] s = s"
  by (simp add: arrive_def read_msg_def)

lemma arrive_arrive: "arrive b (arrive a s) = arrive (a @ b) s"
  by (simp add: arrive_def read_msg_def)

lemma receive_data_arrive: "receive_data a s = receive_data [] (arrive a s)"
  by (simp add: receive_data_def arrive_def read_msg_def Let_def)

lemma arrive_fields:
  "syncstate (arrive b s) = syncstate s"
  "recvq (com (arrive b s)) = recvq (com s) @ b"
  "motor_id (arrive b s) = motor_id s"
  by (simp_all add: arrive_def read_msg_def)

lemma receive_data_idle:
  "receive_data [] s =
     (case syncstate s of
        sync0 \<Rightarrow>
          if com_empty (com s) then (False, s)
          else if front (com s) = 0xFF then
            (True, s\<lparr>syncstate := sync1, com := snd (get_byte (reset_checksum (com s)))\<rparr>)
          else (True, s\<lparr>com := pop (com s)\<rparr>)
      | sync1 \<Rightarrow>
          if com_empty (com s) then (False, s)
          else if front (com s) = 0xFF then
            (True, s\<lparr>syncstate := processing, com := snd (get_byte (com s))\<rparr>)
          else (True, s\<lparr>com := pop (com s), syncstate := sync0\<rparr>)
      | processing \<Rightarrow>
          if com_empty (com s) then (False, s)
          else if front (com s) = 0x80 then
            (if com_size (com s) > 12 then (True, receive_state_data s) else (False, s))
          else if front (com s) = 0xE1 then
            (if com_size (com s) > 2 then (True, receive_ping_response s) else (False, s))
          else (False, s\<lparr>syncstate := invalid\<rparr>)
      | invalid \<Rightarrow> (False, s)
      | completed \<Rightarrow> (False, s))"
  by (simp add: receive_data_def read_msg_def Let_def)

lemma arrive_com:
  "com_empty (com (arrive b s)) = (recvq (com s) = [] \<and> b = [])"
  "com_size (com (arrive b s)) = com_size (com s) + length b"
  "recvq (com s) \<noteq> [] \<Longrightarrow> front (com (arrive b s)) = front (com s)"
  by (simp_all add: arrive_def read_msg_def com_empty_def com_size_def front_def split: list.splits)

lemma receive_data_more:
  assumes "fst (receive_data [] s)"
  shows "receive_data [] (arrive b s) = (True, arrive b (snd (receive_data [] s)))"
proof (cases "syncstate s")
  case sync0
  with assms obtain x xs where q: "recvq (com s) = x # xs"
    by (cases "recvq (com s)") (simp_all add: receive_data_idle com_empty_def)
  with sync0 show ?thesis
    by (cases "x = 0xFF") (simp_all add: receive_data_idle arrive_def chan_defs)
next
  case sync1
  with assms obtain x xs where q: "recvq (com s) = x # xs"
    by (cases "recvq (com s)") (simp_all add: receive_data_idle com_empty_def)
  with sync1 show ?thesis
    by (cases "x = 0xFF") (simp_all add: receive_data_idle arrive_def chan_defs)
next
  case processing
  with assms have ne: "recvq (com s) \<noteq> []"
    by (auto simp add: receive_data_idle com_empty_def split: if_splits)
  from processing assms ne consider
    (state) "front (com s) = 0x80" "12 < length (recvq (com s))"
    | (ping) "front (com s) \<noteq> 0x80" "front (com s) = 0xE1" "2 < length (recvq (com s))"
    by (auto simp add: receive_data_idle com_empty_def com_size_def split: if_splits)
  then show ?thesis
  proof cases
    case state
    with processing ne show ?thesis
      by (simp add: receive_data_idle [of s] receive_data_idle [of "arrive b s"] arrive_fields
          arrive_com com_empty_def com_size_def receive_state_data_arrive)
  next
    case ping
    with processing ne show ?thesis
      by (simp add: receive_data_idle [of s] receive_data_idle [of "arrive b s"] arrive_fields
          arrive_com com_empty_def com_size_def receive_ping_response_arrive)
  qed
next
  case completed
  with assms show ?thesis by (simp add: receive_data_idle)
next
  case invalid
  with assms show ?thesis by (simp add: receive_data_idle)
qed

lemma stuck_sync0:
  assumes "\<not> fst (receive_data [] s)" "syncstate s = sync0"
  shows "snd (receive_data [] s) = s"
  using assms
  by (cases "com_empty (com s)"; cases "front (com s) = 0xFF") (simp_all add: receive_data_idle)

lemma stuck_sync1:
  assumes "\<not> fst (receive_data [] s)" "syncstate s = sync1"
  shows "snd (receive_data [] s) = s"
  using assms
  by (cases "com_empty (com s)"; cases "front (com s) = 0xFF") (simp_all add: receive_data_idle)

lemma stuck_empty:
  assumes "syncstate s = processing" "com_empty (com s)"
  shows "snd (receive_data [] s) = s"
  using assms by (simp add: receive_data_idle)

lemma stuck_state_data:
  assumes "\<not> fst (receive_data [] s)" "syncstate s = processing" "\<not> com_empty (com s)" "front (com s) = 0x80"
  shows "snd (receive_data [] s) = s"
  using assms by (cases "com_size (com s) > 12") (simp_all add: receive_data_idle)

lemma stuck_ping:
  assumes "\<not> fst (receive_data [] s)" "syncstate s = processing" "\<not> com_empty (com s)" "front (com s) \<noteq> 0x80" "front (com s) = 0xE1"
  shows "snd (receive_data [] s) = s"
  using assms by (cases "com_size (com s) > 2") (simp_all add: receive_data_idle)

lemma stuck_unknown:
  assumes "syncstate s = processing" "\<not> com_empty (com s)" "front (com s) \<noteq> 0x80" "front (com s) \<noteq> 0xE1"
  shows "snd (receive_data [] s) = s\<lparr>syncstate := invalid\<rparr>"
  using assms by (simp add: receive_data_idle)

lemma stuck_terminal:
  assumes "syncstate s = completed \<or> syncstate s = invalid"
  shows "snd (receive_data [] s) = s"
  using assms by (auto simp add: receive_data_idle)


lemma receive_data_stuck:
  assumes "\<not> fst (receive_data [] s)"
  shows "snd (receive_data [] s) = s \<or>
         snd (receive_data [] s) = s\<lparr>syncstate := invalid\<rparr> \<and> syncstate s = processing \<and>
           recvq (com s) \<noteq> [] \<and> front (com s) \<noteq> 0x80 \<and> front (com s) \<noteq> 0xE1"
proof (cases "syncstate s")
  case sync0
  from stuck_sync0 [OF assms this] show ?thesis ..
next
  case sync1
  from stuck_sync1 [OF assms this] show ?thesis ..
next
  case processing
  show ?thesis
  proof (cases "com_empty (com s)")
    case True
    from stuck_empty [OF processing this] show ?thesis ..
  next
    case ne: False
    show ?thesis
    proof (cases "front (com s) = 0x80")
      case True
      from stuck_state_data [OF assms processing ne this] show ?thesis ..
    next
      case n80: False
      show ?thesis
      proof (cases "front (com s) = 0xE1")
        case True
        from stuck_ping [OF assms processing ne n80 this] show ?thesis ..
      next
        case False
        from ne have "recvq (com s) \<noteq> []" by (simp add: com_empty_def)
        with stuck_unknown [OF processing ne n80 False] processing n80 False
        show ?thesis by blast
      qed
    qed
  qed
next
  case completed
  then have "syncstate s = completed \<or> syncstate s = invalid" ..
  from stuck_terminal [OF this] show ?thesis ..
next
  case invalid
  then have "syncstate s = completed \<or> syncstate s = invalid" ..
  from stuck_terminal [OF this] show ?thesis ..
qed

lemma receive_loop_pending_cong:
  "pending w = pending w' \<Longrightarrow> snd (receive_loop w s) = snd (receive_loop w' s)"
proof (induction w s arbitrary: w' rule: receive_loop.induct)
  case (1 w s)
  let ?r = "receive_data (next_read w) s"
  from "1.prems" have n: "next_read w' = next_read w" and a: "pending (advance w) = pending (advance w')"
    by (simp_all add: next_read_def advance_def)
  show ?case
  proof (cases "fst ?r")
    case True
    from "1.IH" [OF refl True a] True n show ?thesis
      by (simp add: receive_loop.simps [of w] receive_loop.simps [of w'] Let_def)
  next
    case False
    with n show ?thesis
      by (simp add: receive_loop.simps [of w] receive_loop.simps [of w'] Let_def)
  qed
qed

lemma drain_unfold:
  "drain s = (if fst (receive_data [] s) then drain (snd (receive_data [] s))
              else snd (receive_data [] s))"
proof -
  have "pending (advance (fresh_wire [])) = pending (fresh_wire [])"
    by (simp add: advance_def fresh_wire_def)
  from receive_loop_pending_cong [OF this]
  have "snd (receive_loop (advance (fresh_wire [])) (snd (receive_data [] s))) =
      drain (snd (receive_data [] s))"
    by (simp add: drain_def)
  moreover have "next_read (fresh_wire []) = []"
    by (simp add: next_read_def fresh_wire_def)
  ultimately show ?thesis
    by (simp add: drain_def receive_loop.simps [of "fresh_wire []"] Let_def)
qed

lemma all_at_once_drain:
  "snd (receive_loop (fresh_wire [f]) s) = drain (arrive f s)"
proof -
  have "pending (advance (fresh_wire [f])) = pending (fresh_wire [])"
    by (simp add: advance_def fresh_wire_def)
  from receive_loop_pending_cong [OF this]
  have "snd (receive_loop (advance (fresh_wire [f])) (snd (receive_data f s))) =
      drain (snd (receive_data f s))"
    by (simp add: drain_def)
  moreover have "next_read (fresh_wire [f]) = f"
    by (simp add: next_read_def fresh_wire_def)
  ultimately show ?thesis
    by (simp add: drain_unfold [of "arrive f s"] receive_data_arrive [symmetric]
        receive_loop.simps [of "fresh_wire [f]"] Let_def)
qed

lemma drain_after_call:
  "drain (arrive c (snd (receive_data [] t))) = drain (arrive c t)"
proof (cases "fst (receive_data [] t)")
  case True
  from receive_data_more [OF this, of c] show ?thesis
    by (simp add: drain_unfold [of "arrive c t"])
next
  case False
  from receive_data_stuck [OF this] show ?thesis
  proof
    assume "snd (receive_data [] t) = t"
    then show ?thesis by simp
  next
    assume a: "snd (receive_data [] t) = t\<lparr>syncstate := invalid\<rparr> \<and> syncstate t = processing \<and>
           recvq (com t) \<noteq> [] \<and> front (com t) \<noteq> 0x80 \<and> front (com t) \<noteq> 0xE1"
    then have "receive_data [] (arrive c t) = (False, arrive c (t\<lparr>syncstate := invalid\<rparr>))"
      by (simp add: receive_data_idle arrive_fields arrive_com) (simp add: arrive_def)
    moreover have "receive_data [] (arrive c (t\<lparr>syncstate := invalid\<rparr>)) =
        (False, arrive c (t\<lparr>syncstate := invalid\<rparr>))"
      by (simp add: receive_data_idle arrive_def)
    ultimately show ?thesis using a
      by (simp add: drain_unfold [of "arrive c t"]
          drain_unfold [of "arrive c (t\<lparr>syncstate := invalid\<rparr>)"])
  qed
qed

lemma drain_parser_calls:
  "drain (parser_calls sched s) = drain (arrive (concat sched) s)"
proof (induction sched arbitrary: s)
  case Nil
  show ?case by (simp add: arrive_Nil)
next
  case (Cons a sched)
  have "drain (parser_calls (a # sched) s) =
      drain (arrive (concat sched) (snd (receive_data [] (arrive a s))))"
    by (simp add: Cons.IH receive_data_arrive [symmetric])
  also have "\<dots> = drain (arrive (concat sched) (arrive a s))"
    by (rule drain_after_call)
  finally show ?case by (simp add: arrive_arrive)
qed

subsection \<open>Feeding one byte at a time\<close>

lemma settled_drain: "settled s \<Longrightarrow> drain s = s"
  by (simp add: settled_def drain_unfold [of s])

lemma settled_queue_empty:
  assumes "syncstate s = sync0 \<or> syncstate s = sync1 \<or> syncstate s = processing"
    and "recvq (com s) = []"
  shows "settled s"
  using assms by (auto simp add: settled_def receive_data_idle com_empty_def)

lemma settled_terminal:
  assumes "syncstate s = completed \<or> syncstate s = invalid"
  shows "settled s"
  using assms by (auto simp add: settled_def receive_data_idle)

lemma settled_state_data_wait:
  assumes "syncstate s = processing" "front (com s) = 0x80" "com_size (com s) \<le> 12"
  shows "settled s"
  using assms by (simp add: settled_def receive_data_idle)

lemma settled_ping_wait:
  assumes "syncstate s = processing" "front (com s) = 0xE1" "com_size (com s) \<le> 2"
  shows "settled s"
  using assms by (simp add: settled_def receive_data_idle)

lemma syncstate_receive_ping_response:
  "syncstate (receive_ping_response s) = completed \<or> syncstate (receive_ping_response s) = invalid"
  by (simp add: receive_ping_response_def Let_def split_def)

lemma settled_cases:
  assumes "settled s"
  obtains
    (empty) "syncstate s = sync0 \<or> syncstate s = sync1 \<or> syncstate s = processing"
        "recvq (com s) = []"
  | (state_data) "syncstate s = processing" "recvq (com s) \<noteq> []" "front (com s) = 0x80"
        "com_size (com s) \<le> 12"
  | (ping) "syncstate s = processing" "recvq (com s) \<noteq> []" "front (com s) = 0xE1"
        "com_size (com s) \<le> 2"
  | (terminal) "syncstate s = completed \<or> syncstate s = invalid"
proof (cases "syncstate s")
  case sync0
  with assms have "recvq (com s) = []"
    by (cases "com_empty (com s)"; cases "front (com s) = 0xFF")
       (simp_all add: settled_def receive_data_idle com_empty_def)
  with sync0 empty show ?thesis by blast
next
  case sync1
  with assms have "recvq (com s) = []"
    by (cases "com_empty (com s)"; cases "front (com s) = 0xFF")
       (simp_all add: settled_def receive_data_idle com_empty_def)
  with sync1 empty show ?thesis by blast
next
  case processing
  show ?thesis
  proof (cases "com_empty (com s)")
    case True
    with processing empty show ?thesis by (simp add: com_empty_def)
  next
    case ne: False
    then have q: "recvq (com s) \<noteq> []" by (simp add: com_empty_def)
    show ?thesis
    proof (cases "front (com s) = 0x80")
      case True
      with assms processing ne have "com_size (com s) \<le> 12"
        by (cases "com_size (com s) > 12") (simp_all add: settled_def receive_data_idle)
      with processing q True state_data show ?thesis by blast
    next
      case n80: False
      show ?thesis
      proof (cases "front (com s) = 0xE1")
        case True
        with assms processing ne n80 have "com_size (com s) \<le> 2"
          by (cases "com_size (com s) > 2") (simp_all add: settled_def receive_data_idle)
        with processing q True ping show ?thesis by blast
      next
        case False
        from stuck_unknown [OF processing ne n80 False] assms
        have "s\<lparr>syncstate := invalid\<rparr> = s" by (simp add: settled_def)
        then have "syncstate (s\<lparr>syncstate := invalid\<rparr>) = syncstate s" by simp
        with processing show ?thesis by simp
      qed
    qed
  qed
next
  case completed
  with terminal show ?thesis by blast
next
  case invalid
  with terminal show ?thesis by blast
qed

lemma settled_after_byte:
  assumes "settled s"
  shows "settled (snd (receive_data [b] s))"
proof -
  let ?t = "arrive [b] s"
  have rd: "receive_data [b] s = receive_data [] ?t" by (rule receive_data_arrive)
  from assms show ?thesis
  proof (cases rule: settled_cases)
    case empty
    then have q: "recvq (com ?t) = [b]" by (simp add: arrive_fields)
    from empty(1) show ?thesis
    proof (elim disjE)
      assume st: "syncstate s = sync0"
      show ?thesis
      proof (cases "b = 0xFF")
        case True
        with st q have "snd (receive_data [] ?t) =
            ?t\<lparr>syncstate := sync1, com := snd (get_byte (reset_checksum (com ?t)))\<rparr>"
          by (simp add: receive_data_idle arrive_fields com_empty_def front_def)
        moreover have "settled (?t\<lparr>syncstate := sync1, com := snd (get_byte (reset_checksum (com ?t)))\<rparr>)"
          by (rule settled_queue_empty) (simp_all add: get_byte_proj reset_checksum_def q)
        ultimately show ?thesis by (simp add: rd)
      next
        case False
        with st q have "snd (receive_data [] ?t) = ?t\<lparr>com := pop (com ?t)\<rparr>"
          by (simp add: receive_data_idle arrive_fields com_empty_def front_def)
        moreover have "settled (?t\<lparr>com := pop (com ?t)\<rparr>)"
          by (rule settled_queue_empty) (simp_all add: pop_def q st arrive_fields(1))
        ultimately show ?thesis by (simp add: rd)
      qed
    next
      assume st: "syncstate s = sync1"
      show ?thesis
      proof (cases "b = 0xFF")
        case True
        with st q have "snd (receive_data [] ?t) =
            ?t\<lparr>syncstate := processing, com := snd (get_byte (com ?t))\<rparr>"
          by (simp add: receive_data_idle arrive_fields com_empty_def front_def)
        moreover have "settled (?t\<lparr>syncstate := processing, com := snd (get_byte (com ?t))\<rparr>)"
          by (rule settled_queue_empty) (simp_all add: get_byte_proj q)
        ultimately show ?thesis by (simp add: rd)
      next
        case False
        with st q have "snd (receive_data [] ?t) = ?t\<lparr>com := pop (com ?t), syncstate := sync0\<rparr>"
          by (simp add: receive_data_idle arrive_fields com_empty_def front_def)
        moreover have "settled (?t\<lparr>com := pop (com ?t), syncstate := sync0\<rparr>)"
          by (rule settled_queue_empty) (simp_all add: pop_def q)
        ultimately show ?thesis by (simp add: rd)
      qed
    next
      assume st: "syncstate s = processing"
      then have stt: "syncstate ?t = processing" by (simp add: arrive_fields)
      from q have ne: "\<not> com_empty (com ?t)" and f: "front (com ?t) = b"
        and sz: "com_size (com ?t) = 1"
        by (simp_all add: com_empty_def front_def com_size_def)
      show ?thesis
      proof (cases "b = 0x80")
        case True
        with f sz stt have "settled ?t" by (intro settled_state_data_wait) simp_all
        then show ?thesis by (simp add: rd settled_def)
      next
        case n80: False
        show ?thesis
        proof (cases "b = 0xE1")
          case True
          with f sz stt have "settled ?t" by (intro settled_ping_wait) simp_all
          then show ?thesis by (simp add: rd settled_def)
        next
          case False
          with n80 f have "front (com ?t) \<noteq> 0x80" "front (com ?t) \<noteq> 0xE1" by simp_all
          from stuck_unknown [OF stt ne this]
          show ?thesis by (simp add: rd settled_terminal)
        qed
      qed
    qed
  next
    case state_data
    then have stt: "syncstate ?t = processing" and f: "front (com ?t) = 0x80"
      and ne: "\<not> com_empty (com ?t)" and sz: "com_size (com ?t) = com_size (com s) + 1"
      by (simp_all add: arrive_fields arrive_com)
    show ?thesis
    proof (cases "com_size (com ?t) > 12")
      case True
      with stt f ne have "snd (receive_data [] ?t) = receive_state_data ?t"
        by (simp add: receive_data_idle)
      with syncstate_receive_state_data [of ?t] show ?thesis
        by (simp add: rd settled_terminal)
    next
      case False
      with stt f have "settled ?t" by (intro settled_state_data_wait) simp_all
      then show ?thesis by (simp add: rd settled_def)
    qed
  next
    case ping
    then have stt: "syncstate ?t = processing" and f: "front (com ?t) = 0xE1"
      and ne: "\<not> com_empty (com ?t)" and sz: "com_size (com ?t) = com_size (com s) + 1"
      by (simp_all add: arrive_fields arrive_com)
    show ?thesis
    proof (cases "com_size (com ?t) > 2")
      case True
      with stt f ne have "snd (receive_data [] ?t) = receive_ping_response ?t"
        by (simp add: receive_data_idle)
      with syncstate_receive_ping_response [of ?t] show ?thesis
        by (simp add: rd settled_terminal)
    next
      case False
      with stt f have "settled ?t" by (intro settled_ping_wait) simp_all
      then show ?thesis by (simp add: rd settled_def)
    qed
  next
    case terminal
    then have "syncstate ?t = completed \<or> syncstate ?t = invalid" by (simp add: arrive_fields)
    then have "settled ?t" by (rule settled_terminal)
    then show ?thesis by (simp add: rd settled_def)
  qed
qed

lemma settled_after_call:
  assumes "settled s" and "length a \<le> 1"
  shows "settled (snd (receive_data a s))"
proof (cases a)
  case Nil
  with assms(1) show ?thesis by (simp add: settled_def)
next
  case (Cons b bs)
  with assms(2) have "a = [b]" by simp
  with settled_after_byte [OF assms(1)] show ?thesis by simp
qed

lemma settled_parser_calls:
  assumes "settled s" and "\<forall>a \<in> set sched. length a \<le> 1"
  shows "settled (parser_calls sched s) \<and> idle_calls_wait sched s"
  using assms
proof (induction sched arbitrary: s)
  case Nil
  then show ?case by simp
next
  case (Cons a sched)
  from Cons.prems have "settled (snd (receive_data a s))"
    by (intro settled_after_call) simp_all
  with Cons.IH [of "snd (receive_data a s)"] Cons.prems show ?case
    by (simp add: settled_def)
qed

lemma drain_step: "fst (receive_data [] t) \<Longrightarrow> drain t = drain (snd (receive_data [] t))"
  by (simp add: drain_unfold [of t])

lemma step_sync0_FF:
  assumes "syncstate t = sync0" and "recvq (com t) = 0xFF # q"
  shows "fst (receive_data [] t) \<and> syncstate (snd (receive_data [] t)) = sync1 \<and>
         recvq (com (snd (receive_data [] t))) = q"
  using assms
  by (simp add: receive_data_idle com_empty_def front_def get_byte_proj reset_checksum_def)

lemma step_sync1_FF:
  assumes "syncstate t = sync1" and "recvq (com t) = 0xFF # q"
  shows "fst (receive_data [] t) \<and> syncstate (snd (receive_data [] t)) = processing \<and>
         recvq (com (snd (receive_data [] t))) = q"
  using assms
  by (simp add: receive_data_idle com_empty_def front_def get_byte_proj)

lemma drain_processing_state_data:
  assumes "syncstate t = processing" and "recvq (com t) = 0x80 # q" and "12 \<le> length q"
  shows "drain t = receive_state_data t"
proof -
  from assms have "receive_data [] t = (True, receive_state_data t)"
    by (simp add: receive_data_idle com_empty_def front_def com_size_def)
  then have "drain t = drain (receive_state_data t)"
    by (simp add: drain_unfold [of t])
  also from syncstate_receive_state_data [of t] have "\<dots> = receive_state_data t"
    by (intro settled_drain settled_terminal)
  finally show ?thesis .
qed

lemma drain_processing_ping:
  assumes "syncstate t = processing" and "recvq (com t) = 0xE1 # q" and "2 \<le> length q"
  shows "drain t = receive_ping_response t"
proof -
  from assms have "receive_data [] t = (True, receive_ping_response t)"
    by (simp add: receive_data_idle com_empty_def front_def com_size_def)
  then have "drain t = drain (receive_ping_response t)"
    by (simp add: drain_unfold [of t])
  also from syncstate_receive_ping_response [of t] have "\<dots> = receive_ping_response t"
    by (intro settled_drain settled_terminal)
  finally show ?thesis .
qed

lemma inbound_frame_cases:
  assumes "inbound_frame f"
  obtains q where "f = 0xFF # 0xFF # 0x80 # q" "length q = 12"
  | q where "f = 0xFF # 0xFF # 0xE1 # q" "length q = 2"
proof -
  have f: "f = take 3 f @ drop 3 f" by simp
  from assms consider "length f = 15" "take 3 f = [0xFF, 0xFF, 0x80]"
    | "length f = 5" "take 3 f = [0xFF, 0xFF, 0xE1]"
    unfolding inbound_frame_def by blast
  then show ?thesis
  proof cases
    case 1
    with f have "f = 0xFF # 0xFF # 0x80 # drop 3 f" by simp
    moreover from 1 have "length (drop 3 f) = 12" by simp
    ultimately show ?thesis by (rule that(1))
  next
    case 2
    with f have "f = 0xFF # 0xFF # 0xE1 # drop 3 f" by simp
    moreover from 2 have "length (drop 3 f) = 2" by simp
    ultimately show ?thesis by (rule that(2))
  qed
qed

lemma inbound_frame_terminal:
  assumes "inbound_frame f" and "syncstate s = sync0" and "recvq (com s) = []"
  shows "syncstate (drain (arrive f s)) = completed \<or> syncstate (drain (arrive f s)) = invalid"
proof -
  let ?t0 = "arrive f s"
  let ?t1 = "snd (receive_data [] ?t0)"
  let ?t2 = "snd (receive_data [] ?t1)"
  from assms(2,3) have t0: "syncstate ?t0 = sync0" "recvq (com ?t0) = f"
    by (simp_all add: arrive_fields)
  from assms(1) show ?thesis
  proof (cases rule: inbound_frame_cases)
    case (1 q)
    from step_sync0_FF [OF t0(1)] t0(2) 1(1)
    have t1: "fst (receive_data [] ?t0)" "syncstate ?t1 = sync1" "recvq (com ?t1) = 0xFF # 0x80 # q"
      by simp_all
    from step_sync1_FF [OF t1(2,3)]
    have t2: "fst (receive_data [] ?t1)" "syncstate ?t2 = processing" "recvq (com ?t2) = 0x80 # q"
      by simp_all
    have "drain ?t0 = drain ?t2"
      using drain_step [OF t1(1)] drain_step [OF t2(1)] by simp
    also from 1(2) have "\<dots> = receive_state_data ?t2"
      by (intro drain_processing_state_data [OF t2(2,3)]) simp
    finally show ?thesis using syncstate_receive_state_data [of ?t2] by simp
  next
    case (2 q)
    from step_sync0_FF [OF t0(1)] t0(2) 2(1)
    have t1: "fst (receive_data [] ?t0)" "syncstate ?t1 = sync1" "recvq (com ?t1) = 0xFF # 0xE1 # q"
      by simp_all
    from step_sync1_FF [OF t1(2,3)]
    have t2: "fst (receive_data [] ?t1)" "syncstate ?t2 = processing" "recvq (com ?t2) = 0xE1 # q"
      by simp_all
    have "drain ?t0 = drain ?t2"
      using drain_step [OF t1(1)] drain_step [OF t2(1)] by simp
    also from 2(2) have "\<dots> = receive_ping_response ?t2"
      by (intro drain_processing_ping [OF t2(2,3)]) simp
    finally show ?thesis using syncstate_receive_ping_response [of ?t2] by simp
  qed
qed


text \<open>Claim C7. The parser starts a cycle in \<open>sync0\<close> on an empty queue and is called
  once for every element of \<open>sched\<close>; each call finds at most one new byte, any
  number of calls find none. Then the driver after these calls, parser state and
  Device State included, is the driver after the inner loop of a receive cycle that
  finds all the bytes \<open>concat sched\<close> at its first read; every call that finds no new
  byte returns false and changes nothing; and when the bytes are a well-formed
  inbound frame the parser state reached is \<open>completed\<close> or \<open>invalid\<close>. The bytes need
  not be a frame for the first two parts.\<close>

theorem byte_wise_feeding_equals_all_at_once:
  assumes "syncstate s = sync0" and "recvq (com s) = []" and "\<forall>a \<in> set sched. length a \<le> 1"
  shows "parser_calls sched s = snd (receive_loop (fresh_wire [concat sched]) s) \<and>
         idle_calls_wait sched s \<and>
         (inbound_frame (concat sched) \<longrightarrow>
            syncstate (parser_calls sched s) = completed \<or>
            syncstate (parser_calls sched s) = invalid)"
proof -
  from assms(1,2) have "settled s" by (intro settled_queue_empty) simp_all
  from settled_parser_calls [OF this assms(3)]
  have st: "settled (parser_calls sched s)" and idle: "idle_calls_wait sched s"
    by simp_all
  from st have "parser_calls sched s = drain (parser_calls sched s)"
    by (simp add: settled_drain)
  also have "\<dots> = drain (arrive (concat sched) s)"
    by (rule drain_parser_calls)
  finally have eq: "parser_calls sched s = drain (arrive (concat sched) s)" .
  with inbound_frame_terminal [OF _ assms(1,2), of "concat sched"] idle show ?thesis
    by (simp add: all_at_once_drain)
qed

theorem byte_wise_feeding_equals_all_at_once_witness:
  "syncstate motor5 = sync0 \<and> recvq (com motor5) = [] \<and>
   list_all (\<lambda>a. length a \<le> 1) trickle_example \<and>
   concat trickle_example = state_frame_example \<and>
   inbound_frame state_frame_example \<and>
   parser_calls trickle_example motor5 =
     snd (receive_loop (fresh_wire [state_frame_example]) motor5) \<and>
   syncstate (parser_calls trickle_example motor5) = completed \<and>
   data (parser_calls trickle_example motor5) =
     \<lparr>output_voltage = 0, position = 0, current = 100 * current_scale, voltage_backemf = 0,
      voltage_supply = 50 * voltage_scale, temperature = 100\<rparr>"
proof -
  have h: "syncstate motor5 = sync0" "recvq (com motor5) = []"
    by code_simp+
  have l: "list_all (\<lambda>a. length a \<le> 1) trickle_example"
    by code_simp
  then have q: "\<forall>a \<in> set trickle_example. length a \<le> 1"
    by (simp add: list_all_iff)
  have c: "concat trickle_example = state_frame_example"
    by code_simp
  have i: "inbound_frame state_frame_example"
    by code_simp
  have d: "syncstate (parser_calls trickle_example motor5) = completed"
    "data (parser_calls trickle_example motor5) =
     \<lparr>output_voltage = 0, position = 0, current = 100 * current_scale, voltage_backemf = 0,
      voltage_supply = 50 * voltage_scale, temperature = 100\<rparr>"
    by code_simp+
  from byte_wise_feeding_equals_all_at_once [OF h q] c h l i d show ?thesis by simp
qed

end
